theory Spec2Isabelle
  imports Main "HOL-Library.Sublist"
begin

section \<open>Python text primitives used by the scripts\<close>

text \<open>
  Text is a \<^typ>\<open>string\<close>: the decoded content of a file as Python's text mode hands it
  over (line ends already translated to the newline character). Characters are bytes, so
  the whitespace that \<^verbatim>\<open>str.strip()\<close> removes is the ASCII part of Python's whitespace
  class (tab, line feed, vertical tab, form feed, carriage return, the four separators
  0x1C to 0x1F, and the blank), and \<^verbatim>\<open>str.lower()\<close> folds the letters A to Z.
\<close>

definition isspace :: "char \<Rightarrow> bool" where
  "isspace c = (c \<in> set [CHR 0x09, CHR 0x0A, CHR 0x0B, CHR 0x0C, CHR 0x0D,
                          CHR 0x1C, CHR 0x1D, CHR 0x1E, CHR 0x1F, CHR 0x20])"

definition strip :: "string \<Rightarrow> string" where
  "strip s = rev (dropWhile isspace (rev (dropWhile isspace s)))"

definition startswith :: "string \<Rightarrow> string \<Rightarrow> bool" where
  "startswith s p = prefix p s"

definition endswith :: "string \<Rightarrow> string \<Rightarrow> bool" where
  "endswith s p = suffix p s"

definition lower_char :: "char \<Rightarrow> char" where
  "lower_char c =
     (case map_of (zip ''ABCDEFGHIJKLMNOPQRSTUVWXYZ'' ''abcdefghijklmnopqrstuvwxyz'') c of
        None \<Rightarrow> c
      | Some d \<Rightarrow> d)"

definition lower :: "string \<Rightarrow> string" where
  "lower s = map lower_char s"

text \<open>
  \<^verbatim>\<open>f.readlines()\<close> and \<^verbatim>\<open>for line in f\<close>: the content cut after every newline; each
  line keeps its newline, and a last line without one is a line too.
\<close>

fun readlines :: "string \<Rightarrow> string list" where
  "readlines [] = []"
| "readlines (c # cs) =
     (if c = CHR 0x0A then [c] # readlines cs
      else (case readlines cs of
              [] \<Rightarrow> [[c]]
            | l # ls \<Rightarrow> (c # l) # ls))"

text \<open>
  \<^verbatim>\<open>str.rfind(ch)\<close>: the highest index of the character, or -1.
\<close>

definition rfind :: "char \<Rightarrow> string \<Rightarrow> int" where
  "rfind c s =
     (if c \<in> set s then int (length s) - 1 - int (length (takeWhile (\<lambda>x. x \<noteq> c) (rev s)))
      else - 1)"

text \<open>
  \<^verbatim>\<open>os.path.splitext(p)\<close> on POSIX: the extension starts at the last dot of the last path
  component, unless that component has nothing but dots before it. The library's loop
  returns at the first character between the separator and the last dot that is not a dot.
\<close>

definition splitext :: "string \<Rightarrow> string \<times> string" where
  "splitext p =
     (let sepIndex = rfind (CHR ''/'') p;
          dotIndex = rfind (CHR ''.'') p
      in if dotIndex > sepIndex \<and>
            list_ex (\<lambda>k. p ! k \<noteq> CHR ''.'') [nat (sepIndex + 1) ..< nat dotIndex]
         then (take (nat dotIndex) p, drop (nat dotIndex) p)
         else (p, []))"

text \<open>\<^verbatim>\<open>os.path.basename(p)\<close> on POSIX: what follows the last slash.\<close>

definition basename :: "string \<Rightarrow> string" where
  "basename p = drop (nat (rfind (CHR ''/'') p + 1)) p"

text \<open>\<^verbatim>\<open>s.replace("_context", "")\<close>: every occurrence, left to right, is cut out.\<close>

function replace_context :: "string \<Rightarrow> string" where
  "replace_context [] = []"
| "replace_context (c # cs) =
     (if prefix ''_context'' (c # cs) then replace_context (drop 8 (c # cs))
      else c # replace_context cs)"
  by pat_completeness auto
termination
  by (relation "measure length") auto


section \<open>The work-item ledger of the preprocess stage (preprocess_to_jpeg.py)\<close>

definition VALID_EXTS :: "string list" where
  "VALID_EXTS = [''.tif'', ''.tiff'', ''.png'', ''.jpg'', ''.jpeg'']"

text \<open>
  \<^verbatim>\<open>preprocess_image_for_ocr\<close> calls the image library; what the library does with a
  path is the parameter \<open>cv\<close>: the image cannot be read, the result cannot be written, or
  the JPEG is written. The function returns the success flag.
\<close>

datatype cv_outcome = Unreadable | WriteFailed | Written

definition preprocess_image_for_ocr :: "(string \<Rightarrow> cv_outcome) \<Rightarrow> string \<Rightarrow> bool" where
  "preprocess_image_for_ocr cv input_path =
     (case cv input_path of
        Unreadable \<Rightarrow> False
      | WriteFailed \<Rightarrow> False
      | Written \<Rightarrow> True)"

text \<open>
  A tracking file is \<open>None\<close> when it does not exist and \<open>Some content\<close> otherwise.
  \<^verbatim>\<open>update_tracking_file\<close> reads all lines and writes back those whose stripped text is
  not the processed image; when the file cannot be opened the exception is caught and
  nothing changes.
\<close>

definition update_tracking_file :: "string option \<Rightarrow> string \<Rightarrow> string option" where
  "update_tracking_file tracking_file processed_image =
     (case tracking_file of
        None \<Rightarrow> None
      | Some content \<Rightarrow>
          Some (concat (filter (\<lambda>line. strip line \<noteq> processed_image) (readlines content))))"

text \<open>
  The load of \<^verbatim>\<open>process_images\<close>:
  \<^verbatim>\<open>[line.strip() for line in f if line.strip() and not line.startswith("#")]\<close>.
\<close>

definition load_tracking :: "string \<Rightarrow> string list" where
  "load_tracking content =
     map strip (filter (\<lambda>line. strip line \<noteq> [] \<and> \<not> startswith line ''#'') (readlines content))"

definition valid_image_path :: "string \<Rightarrow> bool" where
  "valid_image_path p = (lower (snd (splitext p)) \<in> set VALID_EXTS)"

datatype pre_event = Preprocess string bool | Untrack string

text \<open>
  The loop of \<^verbatim>\<open>process_images\<close>: each path is handed to the preprocessor, whose
  result is dropped, and then taken off the tracking file.
\<close>

fun process_loop ::
  "(string \<Rightarrow> cv_outcome) \<Rightarrow> string option \<Rightarrow> string list \<Rightarrow> string option \<times> pre_event list"
where
  "process_loop cv tracking_file [] = (tracking_file, [])"
| "process_loop cv tracking_file (image_path # rest) =
     (let ok = preprocess_image_for_ocr cv image_path;
          tracking_file' = update_tracking_file tracking_file image_path;
          (final, events) = process_loop cv tracking_file' rest
      in (final, Preprocess image_path ok # Untrack image_path # events))"

definition process_images ::
  "(string \<Rightarrow> cv_outcome) \<Rightarrow> string option \<Rightarrow> string option \<times> pre_event list"
where
  "process_images cv tracking_file =
     (case tracking_file of
        None \<Rightarrow> (None, [])
      | Some content \<Rightarrow>
          (let paths = load_tracking content;
               to_process = filter valid_image_path paths
           in if to_process = [] then (tracking_file, [])
              else process_loop cv tracking_file to_process))"


section \<open>The transcription stage (flash_process_local_dir.py)\<close>

definition REVERSE_ORDER :: bool where
  "REVERSE_ORDER = True"

definition MAX_RETRIES :: nat where
  "MAX_RETRIES = 3"

definition RETRY_DELAY :: nat where
  "RETRY_DELAY = 5"

text \<open>The script creates a missing pending file with one header line.\<close>

definition ensure_pending :: "string option \<Rightarrow> string" where
  "ensure_pending pending_file =
     (case pending_file of
        None \<Rightarrow> ''# List image paths here, one per line\<newline>''
      | Some content \<Rightarrow> content)"

text \<open>The load: \<^verbatim>\<open>[line.strip() for line in f if line.strip()]\<close>.\<close>

definition load_pending :: "string \<Rightarrow> string list" where
  "load_pending content = map strip (filter (\<lambda>line. strip line \<noteq> []) (readlines content))"

text \<open>
  The rewrite the script does in line, for a missing image and after a success: all
  lines are read and those whose stripped text is not the image path are written back.
\<close>

definition remove_pending :: "string \<Rightarrow> string \<Rightarrow> string" where
  "remove_pending content image_path =
     concat (filter (\<lambda>line. strip line \<noteq> image_path) (readlines content))"

subsection \<open>Document context\<close>

text \<open>
  The context folder is the list of its entries, name and content, in the order
  \<^verbatim>\<open>os.listdir\<close> gives them; \<open>None\<close> when the folder does not exist.
\<close>

definition is_individual_context_file :: "string \<Rightarrow> bool" where
  "is_individual_context_file f =
     (endswith (lower f) ''_context.txt'' \<and> lower f \<noteq> ''all_document_context.txt'')"

definition context_key :: "string \<Rightarrow> string" where
  "context_key cf = replace_context (fst (splitext cf))"

definition load_global_context :: "(string \<times> string) list option \<Rightarrow> string" where
  "load_global_context context_folder =
     (case context_folder of
        None \<Rightarrow> []
      | Some entries \<Rightarrow>
          (case map_of entries ''ALL_DOCUMENT_CONTEXT.txt'' of
             None \<Rightarrow> []
           | Some text \<Rightarrow> strip text))"

fun load_individual ::
  "(string \<times> string) list \<Rightarrow> (string \<rightharpoonup> string) \<Rightarrow> (string \<rightharpoonup> string)"
where
  "load_individual [] context_mapping = context_mapping"
| "load_individual ((cf, text) # rest) context_mapping =
     load_individual rest (context_mapping(context_key cf \<mapsto> strip text))"

definition load_context_mapping :: "(string \<times> string) list option \<Rightarrow> (string \<rightharpoonup> string)" where
  "load_context_mapping context_folder =
     (case context_folder of
        None \<Rightarrow> Map.empty
      | Some entries \<Rightarrow>
          load_individual (filter (\<lambda>(f, text). is_individual_context_file f) entries) Map.empty)"

definition base_prompt :: string where
  "base_prompt =
     ''Please transcribe the text from the uploaded image. '' @
     ''Ensure that the transcription follows correct English spelling, grammar, and sentence structure. '' @
     ''If a word is completely missing, mark it as [blank]. '' @
     ''If a word is unclear or unreadable, make an educated guess based on context rather than providing gibberish, '' @
     ''and mark it as [unsure].''"

text \<open>
  The body of \<^verbatim>\<open>compose_prompt\<close> with the two module globals it reads and the prompt
  text it ends on as arguments; \<open>compose_prompt\<close> is the function of the script, on its
  fixed prompt text.
\<close>

definition compose :: "string \<Rightarrow> string \<Rightarrow> (string \<rightharpoonup> string) \<Rightarrow> string \<Rightarrow> string" where
  "compose image_basename global_context context_mapping base =
     (let context_text = (if global_context \<noteq> [] then global_context else []);
          context_text =
            (case context_mapping image_basename of
               None \<Rightarrow> context_text
             | Some individual \<Rightarrow>
                 (if context_text \<noteq> [] then context_text @ ''\<newline>'' @ individual
                  else individual))
      in if context_text \<noteq> [] then ''Given the context: '' @ context_text @ ''\<newline>'' @ base
         else base)"

definition compose_prompt :: "string \<Rightarrow> (string \<rightharpoonup> string) \<Rightarrow> string \<Rightarrow> string" where
  "compose_prompt global_context context_mapping image_basename =
     compose image_basename global_context context_mapping base_prompt"

text \<open>The name under which an image looks its context up, and its output file is named.\<close>

definition base_name :: "string \<Rightarrow> string" where
  "base_name image_path = fst (splitext (basename image_path))"

subsection \<open>Attempts, retries and the drain\<close>

text \<open>
  One pass through the \<^verbatim>\<open>try\<close> block: either an exception is raised on the way (opening
  the image, the request, an empty response, a chunk, the write), or the output file has
  been written and closed, and then \<open>Wrote out\<close> gives what is at the output path when
  the script looks: \<open>None\<close> when nothing is there, the content otherwise.
\<close>

datatype attempt_outcome = Raised | Wrote "string option"

definition attempt_succeeded :: "attempt_outcome \<Rightarrow> bool" where
  "attempt_succeeded outcome =
     (case outcome of
        Raised \<Rightarrow> False
      | Wrote None \<Rightarrow> False
      | Wrote (Some text) \<Rightarrow> 0 < length text)"

datatype event = Warning string | Attempt string nat | Sleep nat | Unlist string

text \<open>
  The retry loop \<^verbatim>\<open>for attempt in range(MAX_RETRIES)\<close> over the attempt numbers still to
  come. A success breaks with the flag set; a failure sleeps and goes on when the attempt
  is not the last one, and breaks otherwise. The result is the flag and what happened.
\<close>

fun retry_loop :: "(nat \<Rightarrow> attempt_outcome) \<Rightarrow> string \<Rightarrow> nat list \<Rightarrow> bool \<times> event list" where
  "retry_loop api image_path [] = (False, [])"
| "retry_loop api image_path (attempt # rest) =
     (if attempt_succeeded (api attempt) then (True, [Attempt image_path attempt])
      else if attempt < MAX_RETRIES - 1 then
        (let wait_time = RETRY_DELAY * 3 ^ attempt;
             (success, events) = retry_loop api image_path rest
         in (success, Attempt image_path attempt # Sleep wait_time # events))
      else (False, [Attempt image_path attempt]))"

text \<open>
  The body of the main loop for one image path: \<open>src_exists\<close> says whether the image file
  is there, \<open>api image_path attempt\<close> is the outcome of that attempt.
\<close>

definition process_image ::
  "(string \<Rightarrow> bool) \<Rightarrow> (string \<Rightarrow> nat \<Rightarrow> attempt_outcome) \<Rightarrow> string \<Rightarrow> string \<Rightarrow> string \<times> event list"
where
  "process_image src_exists api pending image_path =
     (if \<not> src_exists image_path
      then (remove_pending pending image_path, [Warning image_path, Unlist image_path])
      else
        (let (success, events) = retry_loop (api image_path) image_path [0 ..< MAX_RETRIES]
         in if success then (remove_pending pending image_path, events @ [Unlist image_path])
            else (pending, events)))"

fun process_list ::
  "(string \<Rightarrow> bool) \<Rightarrow> (string \<Rightarrow> nat \<Rightarrow> attempt_outcome) \<Rightarrow> string \<Rightarrow> string list \<Rightarrow> string \<times> event list"
where
  "process_list src_exists api pending [] = (pending, [])"
| "process_list src_exists api pending (image_path # rest) =
     (let (pending', events) = process_image src_exists api pending image_path;
          (final, more) = process_list src_exists api pending' rest
      in (final, events @ more))"

definition transcribe_pending ::
  "(string \<Rightarrow> bool) \<Rightarrow> (string \<Rightarrow> nat \<Rightarrow> attempt_outcome) \<Rightarrow> string option \<Rightarrow> string \<times> event list"
where
  "transcribe_pending src_exists api pending_file =
     (let pending = ensure_pending pending_file;
          image_paths = load_pending pending
      in if image_paths = [] then (pending, [])
         else
           (let processing_list = (if REVERSE_ORDER then rev image_paths else image_paths)
            in process_list src_exists api pending processing_list))"


section \<open>The orchestrator (transcribe_document_main.py)\<close>

definition valid_exts :: "string list" where
  "valid_exts = [''.tif'', ''.tiff'', ''.png'', ''.jpg'', ''.jpeg'']"

text \<open>
  The scan for the marker: the first line whose stripped text is neither empty nor a
  comment decides; repopulation is skipped only when that line is the marker.
\<close>

fun scan_marker :: "string list \<Rightarrow> bool" where
  "scan_marker [] = True"
| "scan_marker (line # rest) =
     (let stripped = strip line
      in if stripped \<noteq> [] \<and> \<not> startswith stripped ''#''
         then (if stripped = ''$$done$$'' then False else True)
         else scan_marker rest)"

definition repopulate :: "string option \<Rightarrow> bool" where
  "repopulate tracking_file =
     (case tracking_file of
        None \<Rightarrow> True
      | Some content \<Rightarrow> scan_marker (readlines content))"

text \<open>
  Discovery: \<open>listing\<close> is \<^verbatim>\<open>os.listdir(args.input_path)\<close> and \<open>abs_path file\<close> stands for
  \<^verbatim>\<open>os.path.abspath(os.path.join(args.input_path, file))\<close>.
\<close>

definition discover :: "(string \<Rightarrow> string) \<Rightarrow> string list \<Rightarrow> string list" where
  "discover abs_path listing =
     map abs_path (filter (\<lambda>file. list_ex (endswith (lower file)) valid_exts) listing)"

definition write_tracking :: "string list \<Rightarrow> string" where
  "write_tracking image_paths =
     concat (map (\<lambda>path. path @ ''\<newline>'') image_paths) @ ''$$done$$\<newline>''"

text \<open>
  The tracking file after the population step of \<^verbatim>\<open>main\<close>; with \<^verbatim>\<open>--new\<close> the file
  has been removed first.
\<close>

definition populate_tracking ::
  "bool \<Rightarrow> (string \<Rightarrow> string) \<Rightarrow> string list \<Rightarrow> string option \<Rightarrow> string option"
where
  "populate_tracking new abs_path listing tracking_file =
     (let tracking_file = (if new then None else tracking_file)
      in if repopulate tracking_file then Some (write_tracking (discover abs_path listing))
         else tracking_file)"

definition write_pending :: "string list \<Rightarrow> string" where
  "write_pending processed_images = concat (map (\<lambda>path. path @ ''\<newline>'') processed_images)"

text \<open>
  The pending file of the transcription stage after the gather step: \<^verbatim>\<open>main\<close> exits
  before it when no processed image was found, and writes the file when \<^verbatim>\<open>--new\<close> was
  given or the file does not exist.
\<close>

definition populate_pending :: "bool \<Rightarrow> string list \<Rightarrow> string option \<Rightarrow> string option" where
  "populate_pending new processed_images pending_file =
     (let pending_file = (if new then None else pending_file)
      in if processed_images = [] then pending_file
         else if new \<or> pending_file = None then Some (write_pending processed_images)
         else pending_file)"

text \<open>
  The first meaningful line of a ledger, in the words of the specification: the first
  line that is neither blank nor a comment, stripped.
\<close>

definition first_meaningful :: "string \<Rightarrow> string option" where
  "first_meaningful content =
     find (\<lambda>s. s \<noteq> [] \<and> \<not> startswith s ''#'') (map strip (readlines content))"


section \<open>Well-formed line lists\<close>

text \<open>
  What \<open>readlines\<close> returns: every line but the last ends in the one newline it holds,
  and the last line is not empty and holds no newline before its last character.
\<close>

definition terminated :: "string \<Rightarrow> bool" where
  "terminated l = (l \<noteq> [] \<and> last l = CHR 0x0A \<and> CHR 0x0A \<notin> set (butlast l))"

fun well_lined :: "string list \<Rightarrow> bool" where
  "well_lined [] = True"
| "well_lined [l] = (l \<noteq> [] \<and> CHR 0x0A \<notin> set (butlast l))"
| "well_lined (l # ls) = (terminated l \<and> well_lined ls)"


section \<open>Lines and stripping\<close>

lemma concat_readlines: "concat (readlines s) = s"
  by (induction s) (auto split: list.splits)

lemma readlines_no_nl': "CHR 0x0A \<notin> set b \<Longrightarrow> readlines b = (if b = [] then [] else [b])"
  by (induction b) (auto split: list.splits)

lemma readlines_no_nl: "CHR 0x0A \<notin> set b \<Longrightarrow> b \<noteq> [] \<Longrightarrow> readlines b = [b]"
  by (simp add: readlines_no_nl')

lemma readlines_line: "CHR 0x0A \<notin> set b \<Longrightarrow> readlines (b @ CHR 0x0A # rest) = (b @ [CHR 0x0A]) # readlines rest"
  by (induction b) (auto split: list.splits)

lemma terminated_split: "terminated l \<Longrightarrow> \<exists>b. l = b @ [CHR 0x0A] \<and> CHR 0x0A \<notin> set b"
  unfolding terminated_def by (metis append_butlast_last_id)

lemma readlines_terminated: "terminated l \<Longrightarrow> readlines (l @ rest) = l # readlines rest"
  using terminated_split[of l] readlines_line by fastforce

lemma readlines_last_line: "l \<noteq> [] \<Longrightarrow> CHR 0x0A \<notin> set (butlast l) \<Longrightarrow> readlines l = [l]"
proof (cases "last l = CHR 0x0A")
  case True
  assume "l \<noteq> []" "CHR 0x0A \<notin> set (butlast l)"
  with True have "terminated l" by (simp add: terminated_def)
  from readlines_terminated[OF this, of "[]"] show ?thesis by simp
next
  case False
  assume a: "l \<noteq> []" "CHR 0x0A \<notin> set (butlast l)"
  with False have "CHR 0x0A \<notin> set l"
    by (metis append_butlast_last_id set_ConsD rotate1.simps(2) set_rotate1)
  with a show ?thesis by (simp add: readlines_no_nl)
qed

lemma readlines_concat: "well_lined ls \<Longrightarrow> readlines (concat ls) = ls"
  by (induction ls rule: well_lined.induct) (simp_all add: readlines_last_line readlines_terminated)

lemma well_lined_filter: "well_lined ls \<Longrightarrow> well_lined (filter P ls)"
proof (induction ls rule: well_lined.induct)
  case 1 show ?case by simp
next
  case (2 l) then show ?case by simp
next
  case (3 l v va)
  then have t: "terminated l" and w: "well_lined (filter P (v # va))" by simp_all
  show ?case
  proof (cases "P l")
    case False with w show ?thesis by simp
  next
    case True
    show ?thesis
    proof (cases "filter P (v # va)")
      case Nil with True t show ?thesis by (simp add: terminated_def)
    next
      case (Cons a as) with True t w show ?thesis by simp
    qed
  qed
qed

lemma well_lined_readlines: "well_lined (readlines s)"
proof (induction s)
  case Nil show ?case by simp
next
  case (Cons c cs)
  show ?case
  proof (cases "c = CHR 0x0A")
    case True
    with Cons show ?thesis by (cases "readlines cs") (simp_all add: terminated_def)
  next
    case False
    show ?thesis
    proof (cases "readlines cs")
      case Nil with False show ?thesis by simp
    next
      case (Cons l ls)
      note rl = this
      show ?thesis
      proof (cases ls)
        case Nil
        with rl False Cons.IH show ?thesis by (cases l) auto
      next
        case (Cons m ms)
        with rl False Cons.IH show ?thesis by (cases l) (auto simp: terminated_def)
      qed
    qed
  qed
qed

lemma readlines_rewrite: "readlines (concat (filter P (readlines s))) = filter P (readlines s)"
  by (simp add: readlines_concat well_lined_filter well_lined_readlines)











section \<open>Removing an item from a ledger\<close>




section \<open>Failed items and the ledger\<close>

text \<open>
  Claim C1. The claim: an item whose processing fails keeps its line in the ledger, in
  the preprocess stage as in the transcription stage. The preprocess stage does not do
  so: for an image that the library cannot read, \<open>preprocess_image_for_ocr\<close> returns
  False, no output is written, and \<open>process_images\<close> takes the line off the tracking file
  all the same. (The transcription stage keeps the line: \<open>failed_transcription_stays\<close>.)
\<close>

theorem failed_preprocess_is_untracked:
  "preprocess_image_for_ocr (\<lambda>p. Unreadable) ''/in/a.png'' = False
   \<and> process_images (\<lambda>p. Unreadable) (Some ''/in/a.png\<newline>$$done$$\<newline>'')
       = (Some ''$$done$$\<newline>'', [Preprocess ''/in/a.png'' False, Untrack ''/in/a.png''])"
  by code_simp


section \<open>Loading a ledger\<close>

text \<open>
  Claim C3. The claim: loading a ledger never yields a comment line as a work item, in
  either stage. The transcription stage's load has no test for comments: the header line
  that the script itself writes into a new pending file is loaded as an image path (the
  preprocess stage's load of the same content is empty), found missing and taken off the
  file.
\<close>

theorem header_comment_loaded_as_item:
  "ensure_pending None = ''# List image paths here, one per line\<newline>''
   \<and> load_pending (ensure_pending None) = [''# List image paths here, one per line'']
   \<and> load_tracking (ensure_pending None) = []
   \<and> transcribe_pending (\<lambda>p. False) api None
       = ([], [Warning ''# List image paths here, one per line'',
               Unlist ''# List image paths here, one per line''])"
  by (simp add: load_pending_def load_tracking_def ensure_pending_def strip_def isspace_def
      startswith_def transcribe_pending_def REVERSE_ORDER_def process_image_def remove_pending_def)

section \<open>The retrying invoker\<close>

lemma readlines_remove_pending:
  "readlines (remove_pending content i) = filter (\<lambda>line. strip line \<noteq> i) (readlines content)"
  by (simp add: remove_pending_def readlines_rewrite)

lemma load_pending_remove_pending:
  "load_pending (remove_pending content i) = filter (\<lambda>j. j \<noteq> i) (load_pending content)"
  by (simp add: load_pending_def readlines_remove_pending filter_map o_def conj_commute)

lemma upt_MAX_RETRIES: "[0 ..< MAX_RETRIES] = [0, 1, 2]"
  by (simp add: MAX_RETRIES_def upt_rec)

lemma retry_loop_first:
  "attempt_succeeded (api 0) \<Longrightarrow>
     retry_loop api p [0 ..< MAX_RETRIES] = (True, [Attempt p 0])"
  unfolding upt_MAX_RETRIES by simp

lemma retry_loop_second:
  "\<not> attempt_succeeded (api 0) \<Longrightarrow> attempt_succeeded (api 1) \<Longrightarrow>
     retry_loop api p [0 ..< MAX_RETRIES] = (True, [Attempt p 0, Sleep 5, Attempt p 1])"
  unfolding upt_MAX_RETRIES by (simp add: MAX_RETRIES_def RETRY_DELAY_def)

lemma retry_loop_third:
  "\<not> attempt_succeeded (api 0) \<Longrightarrow> \<not> attempt_succeeded (api 1) \<Longrightarrow>
     retry_loop api p [0 ..< MAX_RETRIES] =
       (attempt_succeeded (api 2), [Attempt p 0, Sleep 5, Attempt p 1, Sleep 15, Attempt p 2])"
  unfolding upt_MAX_RETRIES by (simp add: MAX_RETRIES_def RETRY_DELAY_def)

lemma retry_loop_success:
  "fst (retry_loop api p [0 ..< MAX_RETRIES]) = (\<exists>n < MAX_RETRIES. attempt_succeeded (api n))"
proof -
  have "(\<exists>n < MAX_RETRIES. attempt_succeeded (api n)) =
        (attempt_succeeded (api 0) \<or> attempt_succeeded (api 1) \<or> attempt_succeeded (api 2))"
    by (auto simp: MAX_RETRIES_def less_Suc_eq numeral_3_eq_3 numeral_2_eq_2)
  then show ?thesis
    by (cases "attempt_succeeded (api 0)"; cases "attempt_succeeded (api 1)")
       (simp_all add: retry_loop_first retry_loop_second retry_loop_third)
qed

lemma failed_transcription_stays:
  assumes "src_exists p" and "\<forall>n < MAX_RETRIES. \<not> attempt_succeeded (api p n)"
  shows "fst (process_image src_exists api pending p) = pending"
proof -
  from assms(2) have "\<not> fst (retry_loop (api p) p [0 ..< MAX_RETRIES])"
    by (simp add: retry_loop_success)
  with assms(1) show ?thesis
    by (cases "retry_loop (api p) p [0 ..< MAX_RETRIES]") (simp add: process_image_def)
qed

lemma unlisted_only_when_done:
  assumes "fst (process_image src_exists api pending p) \<noteq> pending"
  shows "\<not> src_exists p \<or> (\<exists>n < MAX_RETRIES. attempt_succeeded (api p n))"
  using assms failed_transcription_stays by blast

text \<open>
  Claim C5. With \<open>RETRY_DELAY = 5\<close> and \<open>MAX_RETRIES = 3\<close>, the retry loop sleeps
  \<open>RETRY_DELAY * 3 ^ n\<close> seconds after the failed attempt number \<open>n\<close> (counted from 0 as
  the script does) and before the next one: 5 seconds between the first and the second
  attempt, 15 seconds between the second and the third, and nothing after the attempt
  that ends the loop, be it a success or the third failure.
\<close>

theorem backoff_schedule:
  "(attempt_succeeded (api 0) \<longrightarrow>
      retry_loop api p [0 ..< MAX_RETRIES] = (True, [Attempt p 0]))
   \<and> (\<not> attempt_succeeded (api 0) \<and> attempt_succeeded (api 1) \<longrightarrow>
      retry_loop api p [0 ..< MAX_RETRIES]
        = (True, [Attempt p 0, Sleep (RETRY_DELAY * 3 ^ 0), Attempt p 1]))
   \<and> (\<not> attempt_succeeded (api 0) \<and> \<not> attempt_succeeded (api 1) \<longrightarrow>
      retry_loop api p [0 ..< MAX_RETRIES]
        = (attempt_succeeded (api 2),
           [Attempt p 0, Sleep (RETRY_DELAY * 3 ^ 0), Attempt p 1, Sleep (RETRY_DELAY * 3 ^ 1),
            Attempt p 2]))
   \<and> RETRY_DELAY * 3 ^ 0 = 5 \<and> RETRY_DELAY * 3 ^ 1 = 15 \<and> MAX_RETRIES = 3"
proof -
  have d: "RETRY_DELAY * 3 ^ 0 = 5" "RETRY_DELAY * 3 ^ 1 = 15" and m: "MAX_RETRIES = 3"
    by (simp_all add: RETRY_DELAY_def MAX_RETRIES_def)
  have "attempt_succeeded (api 0) \<longrightarrow>
      retry_loop api p [0 ..< MAX_RETRIES] = (True, [Attempt p 0])"
    by (simp add: retry_loop_first)
  moreover have "\<not> attempt_succeeded (api 0) \<and> attempt_succeeded (api 1) \<longrightarrow>
      retry_loop api p [0 ..< MAX_RETRIES]
        = (True, [Attempt p 0, Sleep (RETRY_DELAY * 3 ^ 0), Attempt p 1])"
    unfolding d by (simp add: retry_loop_second)
  moreover have "\<not> attempt_succeeded (api 0) \<and> \<not> attempt_succeeded (api 1) \<longrightarrow>
      retry_loop api p [0 ..< MAX_RETRIES]
        = (attempt_succeeded (api 2),
           [Attempt p 0, Sleep (RETRY_DELAY * 3 ^ 0), Attempt p 1, Sleep (RETRY_DELAY * 3 ^ 1),
            Attempt p 2])"
    unfolding d by (simp add: retry_loop_third)
  ultimately show ?thesis using d m by blast
qed

theorem backoff_schedule_witness:
  "retry_loop (\<lambda>n. Raised) ''/out/a.jpeg'' [0 ..< MAX_RETRIES]
     = (False, [Attempt ''/out/a.jpeg'' 0, Sleep 5, Attempt ''/out/a.jpeg'' 1, Sleep 15,
                Attempt ''/out/a.jpeg'' 2])
   \<and> retry_loop (\<lambda>n. if n = 0 then Raised else Wrote (Some ''text'')) ''/out/a.jpeg'' [0 ..< MAX_RETRIES]
     = (True, [Attempt ''/out/a.jpeg'' 0, Sleep 5, Attempt ''/out/a.jpeg'' 1])
   \<and> retry_loop (\<lambda>n. Wrote (Some ''text'')) ''/out/a.jpeg'' [0 ..< MAX_RETRIES]
     = (True, [Attempt ''/out/a.jpeg'' 0])"
  using backoff_schedule [of "\<lambda>n. Raised" "''/out/a.jpeg''"]
        backoff_schedule [of "\<lambda>n. if n = 0 then Raised else Wrote (Some ''text'')" "''/out/a.jpeg''"]
        backoff_schedule [of "\<lambda>n. Wrote (Some ''text'')" "''/out/a.jpeg''"]
  by (simp add: attempt_succeeded_def)

text \<open>
  Claim C6. An attempt counts as a success exactly when the output file is there with
  more than zero characters after the write. An output that is missing or empty after a
  call without error is a failure like any other: after the first or the second attempt
  the loop sleeps and attempts again, and when every attempt ends so the image stays in
  the pending file.
\<close>

theorem empty_output_is_retried:
  "(attempt_succeeded outcome \<longleftrightarrow> (\<exists>text. outcome = Wrote (Some text) \<and> 0 < length text))
   \<and> \<not> attempt_succeeded (Wrote None) \<and> \<not> attempt_succeeded (Wrote (Some []))
   \<and> (api 0 = Wrote None \<or> api 0 = Wrote (Some []) \<longrightarrow>
        take 3 (snd (retry_loop api p [0 ..< MAX_RETRIES])) = [Attempt p 0, Sleep 5, Attempt p 1])
   \<and> (\<not> attempt_succeeded (api 0) \<and> (api 1 = Wrote None \<or> api 1 = Wrote (Some [])) \<longrightarrow>
        retry_loop api p [0 ..< MAX_RETRIES]
          = (attempt_succeeded (api 2),
             [Attempt p 0, Sleep 5, Attempt p 1, Sleep 15, Attempt p 2]))
   \<and> (src_exists p \<and> (\<forall>n < MAX_RETRIES. oracle p n = Wrote None \<or> oracle p n = Wrote (Some [])) \<longrightarrow>
        process_image src_exists oracle pending p
          = (pending, [Attempt p 0, Sleep 5, Attempt p 1, Sleep 15, Attempt p 2]))"
proof -
  have c: "attempt_succeeded outcome \<longleftrightarrow> (\<exists>text. outcome = Wrote (Some text) \<and> 0 < length text)"
    by (auto simp: attempt_succeeded_def split: attempt_outcome.splits option.splits)
  have e: "\<not> attempt_succeeded (Wrote None)" "\<not> attempt_succeeded (Wrote (Some []))"
    by (simp_all add: attempt_succeeded_def)
  have first: "api 0 = Wrote None \<or> api 0 = Wrote (Some []) \<longrightarrow>
        take 3 (snd (retry_loop api p [0 ..< MAX_RETRIES])) = [Attempt p 0, Sleep 5, Attempt p 1]"
  proof
    assume "api 0 = Wrote None \<or> api 0 = Wrote (Some [])"
    with e have f: "\<not> attempt_succeeded (api 0)" by auto
    show "take 3 (snd (retry_loop api p [0 ..< MAX_RETRIES])) = [Attempt p 0, Sleep 5, Attempt p 1]"
      using f by (cases "attempt_succeeded (api 1)") (simp_all add: retry_loop_second retry_loop_third)
  qed
  have second: "\<not> attempt_succeeded (api 0) \<and> (api 1 = Wrote None \<or> api 1 = Wrote (Some [])) \<longrightarrow>
        retry_loop api p [0 ..< MAX_RETRIES]
          = (attempt_succeeded (api 2), [Attempt p 0, Sleep 5, Attempt p 1, Sleep 15, Attempt p 2])"
    using e by (auto simp: retry_loop_third)
  have all: "src_exists p \<and> (\<forall>n < MAX_RETRIES. oracle p n = Wrote None \<or> oracle p n = Wrote (Some [])) \<longrightarrow>
        process_image src_exists oracle pending p
          = (pending, [Attempt p 0, Sleep 5, Attempt p 1, Sleep 15, Attempt p 2])"
  proof
    assume a: "src_exists p \<and> (\<forall>n < MAX_RETRIES. oracle p n = Wrote None \<or> oracle p n = Wrote (Some []))"
    then have "\<forall>n < MAX_RETRIES. \<not> attempt_succeeded (oracle p n)" using e by metis
    then have "\<not> attempt_succeeded (oracle p 0)" "\<not> attempt_succeeded (oracle p 1)"
      "\<not> attempt_succeeded (oracle p 2)"
      by (simp_all add: MAX_RETRIES_def)
    then have "retry_loop (oracle p) p [0 ..< MAX_RETRIES]
       = (False, [Attempt p 0, Sleep 5, Attempt p 1, Sleep 15, Attempt p 2])"
      by (simp add: retry_loop_third)
    with a show "process_image src_exists oracle pending p
          = (pending, [Attempt p 0, Sleep 5, Attempt p 1, Sleep 15, Attempt p 2])"
      by (simp add: process_image_def)
  qed
  from c e first second all show ?thesis by blast
qed

theorem empty_output_is_retried_witness:
  "attempt_succeeded (Wrote (Some ''text'')) \<and> \<not> attempt_succeeded Raised
   \<and> process_image (\<lambda>p. True) (\<lambda>p n. Wrote (Some [])) ''/out/a.jpeg\<newline>'' ''/out/a.jpeg''
       = (''/out/a.jpeg\<newline>'',
          [Attempt ''/out/a.jpeg'' 0, Sleep 5, Attempt ''/out/a.jpeg'' 1, Sleep 15,
           Attempt ''/out/a.jpeg'' 2])
   \<and> take 3 (snd (retry_loop (\<lambda>n. if n = 0 then Wrote None else Wrote (Some ''text''))
                    ''/out/a.jpeg'' [0 ..< MAX_RETRIES]))
       = [Attempt ''/out/a.jpeg'' 0, Sleep 5, Attempt ''/out/a.jpeg'' 1]"
  using empty_output_is_retried [of "Wrote (Some ''text'')" "\<lambda>n. if n = 0 then Wrote None else Wrote (Some ''text'')"
          "''/out/a.jpeg''" "\<lambda>p. True" "\<lambda>p n. Wrote (Some [])" "''/out/a.jpeg\<newline>''"]
        empty_output_is_retried [of Raised "\<lambda>n. Wrote None" "''/out/a.jpeg''" "\<lambda>p. True"
          "\<lambda>p n. Wrote (Some [])" "''/out/a.jpeg\<newline>''"]
  by simp


section \<open>Missing images\<close>

lemma process_list_missing:
  "\<forall>p \<in> set xs. \<not> src_exists p \<Longrightarrow>
     process_list src_exists api pending xs
       = (foldl remove_pending pending xs, concat (map (\<lambda>p. [Warning p, Unlist p]) xs))"
  by (induction xs arbitrary: pending) (simp_all add: process_image_def)

lemma load_pending_foldl_remove:
  "load_pending (foldl remove_pending pending xs) = filter (\<lambda>j. j \<notin> set xs) (load_pending pending)"
  by (induction xs arbitrary: pending) (simp_all add: load_pending_remove_pending conj_commute)

lemma process_image_lines:
  "readlines (fst (process_image src_exists api pending p))
     = (if \<not> src_exists p \<or> (\<exists>n < MAX_RETRIES. attempt_succeeded (api p n))
        then filter (\<lambda>line. strip line \<noteq> p) (readlines pending)
        else readlines pending)"
proof (cases "src_exists p")
  case False
  then show ?thesis by (simp add: process_image_def readlines_remove_pending)
next
  case True
  obtain s ev where r: "retry_loop (api p) p [0 ..< MAX_RETRIES] = (s, ev)"
    by (cases "retry_loop (api p) p [0 ..< MAX_RETRIES]")
  then have "s = (\<exists>n < MAX_RETRIES. attempt_succeeded (api p n))"
    using retry_loop_success [of "api p" p] by simp
  with True r show ?thesis
    by (cases s) (auto simp: process_image_def readlines_remove_pending)
qed

lemma process_list_lines:
  "readlines (fst (process_list src_exists api pending xs))
     = filter (\<lambda>line. \<not> (strip line \<in> set xs
                  \<and> (\<not> src_exists (strip line)
                       \<or> (\<exists>n < MAX_RETRIES. attempt_succeeded (api (strip line) n)))))
         (readlines pending)"
proof (induction xs arbitrary: pending)
  case Nil
  show ?case by simp
next
  case (Cons p ps)
  obtain pending' ev where i: "process_image src_exists api pending p = (pending', ev)"
    by (cases "process_image src_exists api pending p")
  obtain final more where l: "process_list src_exists api pending' ps = (final, more)"
    by (cases "process_list src_exists api pending' ps")
  have f: "fst (process_list src_exists api pending (p # ps)) = fst (process_list src_exists api pending' ps)"
    by (simp add: i l)
  have p': "readlines pending'
     = (if \<not> src_exists p \<or> (\<exists>n < MAX_RETRIES. attempt_succeeded (api p n))
        then filter (\<lambda>line. strip line \<noteq> p) (readlines pending)
        else readlines pending)"
    using process_image_lines [of src_exists api pending p] by (simp add: i)
  show ?case
    unfolding f Cons.IH p'
    by (auto intro: filter_cong)
qed

lemma transcribe_pending_lines:
  "readlines (fst (transcribe_pending src_exists api pending_file))
     = filter (\<lambda>line. strip line = []
                 \<or> (src_exists (strip line)
                     \<and> (\<forall>n < MAX_RETRIES. \<not> attempt_succeeded (api (strip line) n))))
         (readlines (ensure_pending pending_file))"
proof -
  let ?pending = "ensure_pending pending_file"
  have m: "strip line \<in> set (load_pending ?pending) \<longleftrightarrow> strip line \<noteq> []"
    if "line \<in> set (readlines ?pending)" for line
    using that by (auto simp: load_pending_def)
  show ?thesis
  proof (cases "load_pending ?pending = []")
    case True
    then have "\<forall>line \<in> set (readlines ?pending). strip line = []"
      by (auto simp: load_pending_def filter_empty_conv)
    then have "filter (\<lambda>line. strip line = []
                 \<or> (src_exists (strip line)
                     \<and> (\<forall>n < MAX_RETRIES. \<not> attempt_succeeded (api (strip line) n))))
         (readlines ?pending) = readlines ?pending"
      by (simp add: filter_id_conv)
    with True show ?thesis by (simp add: transcribe_pending_def)
  next
    case False
    then have "readlines (fst (transcribe_pending src_exists api pending_file))
        = readlines (fst (process_list src_exists api ?pending (rev (load_pending ?pending))))"
      by (simp add: transcribe_pending_def REVERSE_ORDER_def Let_def)
    also have "\<dots> = filter (\<lambda>line. \<not> (strip line \<in> set (rev (load_pending ?pending))
                  \<and> (\<not> src_exists (strip line)
                       \<or> (\<exists>n < MAX_RETRIES. attempt_succeeded (api (strip line) n)))))
         (readlines ?pending)"
      by (rule process_list_lines)
    also have "\<dots> = filter (\<lambda>line. strip line = []
                 \<or> (src_exists (strip line)
                     \<and> (\<forall>n < MAX_RETRIES. \<not> attempt_succeeded (api (strip line) n))))
         (readlines ?pending)"
      using m by (intro filter_cong refl) auto
    finally show ?thesis .
  qed
qed

text \<open>
  Claim C7. An image path whose file does not exist is taken off the pending file at once
  with a warning, with no attempt and no sleep: the lines of the file afterwards are the
  lines before without those of that path, so the loaded ledger is the old one without
  it and every other item stays. After a whole run the file holds, in their order, the
  blank lines and the lines of the images that exist and failed in every attempt. When
  none of the listed paths exists, only the blank lines are left, the file loads as the
  empty ledger, the events are the warnings and removals alone, and the run does not
  depend on the transcription service at all.
\<close>

theorem missing_images_drain:
  "(\<not> src_exists p \<longrightarrow>
      process_image src_exists api pending p
        = (remove_pending pending p, [Warning p, Unlist p])
      \<and> readlines (fst (process_image src_exists api pending p))
          = filter (\<lambda>line. strip line \<noteq> p) (readlines pending)
      \<and> load_pending (fst (process_image src_exists api pending p))
          = filter (\<lambda>j. j \<noteq> p) (load_pending pending))
   \<and> readlines (fst (transcribe_pending src_exists api pending_file))
       = filter (\<lambda>line. strip line = []
                   \<or> (src_exists (strip line)
                       \<and> (\<forall>n < MAX_RETRIES. \<not> attempt_succeeded (api (strip line) n))))
           (readlines (ensure_pending pending_file))
   \<and> ((\<forall>q \<in> set (load_pending (ensure_pending pending_file)). \<not> src_exists q) \<longrightarrow>
        readlines (fst (transcribe_pending src_exists api pending_file))
          = filter (\<lambda>line. strip line = []) (readlines (ensure_pending pending_file))
        \<and> load_pending (fst (transcribe_pending src_exists api pending_file)) = []
        \<and> snd (transcribe_pending src_exists api pending_file)
            = concat (map (\<lambda>q. [Warning q, Unlist q]) (rev (load_pending (ensure_pending pending_file))))
        \<and> (\<forall>q n. Attempt q n \<notin> set (snd (transcribe_pending src_exists api pending_file)))
        \<and> (\<forall>d. Sleep d \<notin> set (snd (transcribe_pending src_exists api pending_file)))
        \<and> transcribe_pending src_exists api pending_file
            = transcribe_pending src_exists other_api pending_file)"
proof -
  have one: "\<not> src_exists p \<longrightarrow>
      process_image src_exists api pending p = (remove_pending pending p, [Warning p, Unlist p])
      \<and> readlines (fst (process_image src_exists api pending p))
          = filter (\<lambda>line. strip line \<noteq> p) (readlines pending)
      \<and> load_pending (fst (process_image src_exists api pending p))
          = filter (\<lambda>j. j \<noteq> p) (load_pending pending)"
    by (simp add: process_image_def load_pending_remove_pending readlines_remove_pending)
  let ?pending = "ensure_pending pending_file"
  let ?items = "load_pending ?pending"
  have all: "readlines (fst (transcribe_pending src_exists api pending_file))
       = filter (\<lambda>line. strip line = []
                   \<or> (src_exists (strip line)
                       \<and> (\<forall>n < MAX_RETRIES. \<not> attempt_succeeded (api (strip line) n))))
           (readlines ?pending)"
    by (rule transcribe_pending_lines)
  have drain: "(\<forall>q \<in> set ?items. \<not> src_exists q) \<longrightarrow>
        readlines (fst (transcribe_pending src_exists api pending_file))
          = filter (\<lambda>line. strip line = []) (readlines ?pending)
        \<and> load_pending (fst (transcribe_pending src_exists api pending_file)) = []
        \<and> snd (transcribe_pending src_exists api pending_file)
            = concat (map (\<lambda>q. [Warning q, Unlist q]) (rev ?items))
        \<and> (\<forall>q n. Attempt q n \<notin> set (snd (transcribe_pending src_exists api pending_file)))
        \<and> (\<forall>d. Sleep d \<notin> set (snd (transcribe_pending src_exists api pending_file)))
        \<and> transcribe_pending src_exists api pending_file
            = transcribe_pending src_exists other_api pending_file"
  proof
    assume miss: "\<forall>q \<in> set ?items. \<not> src_exists q"
    then have m: "\<forall>q \<in> set (rev ?items). \<not> src_exists q" by simp
    have run: "transcribe_pending src_exists a pending_file
        = (foldl remove_pending ?pending (rev ?items),
           concat (map (\<lambda>q. [Warning q, Unlist q]) (rev ?items)))" for a
    proof (cases "?items = []")
      case True
      then show ?thesis by (simp add: transcribe_pending_def)
    next
      case False
      then show ?thesis
        using process_list_missing [OF m, of a ?pending]
        by (simp add: transcribe_pending_def REVERSE_ORDER_def Let_def)
    qed
    have gone: "\<not> src_exists (strip line)"
      if "line \<in> set (readlines ?pending)" "strip line \<noteq> []" for line
    proof -
      from that have "strip line \<in> set ?items" by (auto simp: load_pending_def)
      with miss show ?thesis by blast
    qed
    have "filter (\<lambda>line. strip line = []
                   \<or> (src_exists (strip line)
                       \<and> (\<forall>n < MAX_RETRIES. \<not> attempt_succeeded (api (strip line) n))))
           (readlines ?pending)
        = filter (\<lambda>line. strip line = []) (readlines ?pending)"
      using gone by (intro filter_cong refl) auto
    with all have blank: "readlines (fst (transcribe_pending src_exists api pending_file))
          = filter (\<lambda>line. strip line = []) (readlines ?pending)"
      by simp
    have empty: "load_pending (foldl remove_pending ?pending (rev ?items)) = []"
      by (simp add: load_pending_foldl_remove)
    have ev: "\<forall>q n. Attempt q n \<notin> set (concat (map (\<lambda>q. [Warning q, Unlist q]) (rev ?items)))"
      "\<forall>d. Sleep d \<notin> set (concat (map (\<lambda>q. [Warning q, Unlist q]) (rev ?items)))"
      by auto
    have rest: "load_pending (fst (transcribe_pending src_exists api pending_file)) = []
        \<and> snd (transcribe_pending src_exists api pending_file)
            = concat (map (\<lambda>q. [Warning q, Unlist q]) (rev ?items))
        \<and> (\<forall>q n. Attempt q n \<notin> set (snd (transcribe_pending src_exists api pending_file)))
        \<and> (\<forall>d. Sleep d \<notin> set (snd (transcribe_pending src_exists api pending_file)))
        \<and> transcribe_pending src_exists api pending_file
            = transcribe_pending src_exists other_api pending_file"
      using empty ev by (simp only: run fst_conv snd_conv) simp
    from blank rest
    show "readlines (fst (transcribe_pending src_exists api pending_file))
          = filter (\<lambda>line. strip line = []) (readlines ?pending)
        \<and> load_pending (fst (transcribe_pending src_exists api pending_file)) = []
        \<and> snd (transcribe_pending src_exists api pending_file)
            = concat (map (\<lambda>q. [Warning q, Unlist q]) (rev ?items))
        \<and> (\<forall>q n. Attempt q n \<notin> set (snd (transcribe_pending src_exists api pending_file)))
        \<and> (\<forall>d. Sleep d \<notin> set (snd (transcribe_pending src_exists api pending_file)))
        \<and> transcribe_pending src_exists api pending_file
            = transcribe_pending src_exists other_api pending_file"
      by (rule conjI)
  qed
  show ?thesis
    by (intro conjI) (rule one all drain)+
qed

theorem missing_images_drain_witness:
  "\<not> (\<lambda>p. p = ''/out/ok.jpeg'') ''missing.png''
   \<and> load_pending ''/out/ok.jpeg\<newline>missing.png\<newline>'' = [''/out/ok.jpeg'', ''missing.png'']
   \<and> load_pending (fst (process_image (\<lambda>p. p = ''/out/ok.jpeg'') (\<lambda>p n. Raised)
        ''/out/ok.jpeg\<newline>missing.png\<newline>'' ''missing.png'')) = [''/out/ok.jpeg'']
   \<and> transcribe_pending (\<lambda>p. p = ''/out/ok.jpeg'') (\<lambda>p n. Raised)
        (Some ''/out/ok.jpeg\<newline>missing.png\<newline>'')
       = (''/out/ok.jpeg\<newline>'',
          [Warning ''missing.png'', Unlist ''missing.png'',
           Attempt ''/out/ok.jpeg'' 0, Sleep 5, Attempt ''/out/ok.jpeg'' 1, Sleep 15,
           Attempt ''/out/ok.jpeg'' 2])
   \<and> load_pending (fst (transcribe_pending (\<lambda>p. False) (\<lambda>p n. Wrote (Some ''text''))
        (Some ''missing.png\<newline>\<newline>''))) = []
   \<and> transcribe_pending (\<lambda>p. False) (\<lambda>p n. Wrote (Some ''text'')) (Some ''missing.png\<newline>\<newline>'')
       = (''\<newline>'', [Warning ''missing.png'', Unlist ''missing.png''])"
proof -
  let ?c = "''/out/ok.jpeg\<newline>missing.png\<newline>''"
  have n: "\<not> (\<lambda>p. p = ''/out/ok.jpeg'') ''missing.png''" by simp
  have l: "load_pending ?c = [''/out/ok.jpeg'', ''missing.png'']"
    by (simp add: load_pending_def strip_def isspace_def)
  from missing_images_drain [where src_exists = "\<lambda>p. p = ''/out/ok.jpeg''" and p = "''missing.png''"
      and api = "\<lambda>p n. Raised" and pending = ?c] n
  have "load_pending (fst (process_image (\<lambda>p. p = ''/out/ok.jpeg'') (\<lambda>p n. Raised) ?c ''missing.png''))
          = filter (\<lambda>j. j \<noteq> ''missing.png'') (load_pending ?c)"
    by blast
  then have one: "load_pending (fst (process_image (\<lambda>p. p = ''/out/ok.jpeg'') (\<lambda>p n. Raised) ?c ''missing.png''))
          = [''/out/ok.jpeg'']"
    by (simp add: l)
  have mixed: "transcribe_pending (\<lambda>p. p = ''/out/ok.jpeg'') (\<lambda>p n. Raised) (Some ?c)
       = (''/out/ok.jpeg\<newline>'',
          [Warning ''missing.png'', Unlist ''missing.png'',
           Attempt ''/out/ok.jpeg'' 0, Sleep 5, Attempt ''/out/ok.jpeg'' 1, Sleep 15,
           Attempt ''/out/ok.jpeg'' 2])"
    by code_simp
  have l2: "load_pending (ensure_pending (Some ''missing.png\<newline>\<newline>'')) = [''missing.png'']"
    by (simp add: load_pending_def ensure_pending_def strip_def isspace_def)
  then have h: "\<forall>q \<in> set (load_pending (ensure_pending (Some ''missing.png\<newline>\<newline>''))). \<not> (\<lambda>p. False) q"
    by simp
  from missing_images_drain [where src_exists = "\<lambda>p. False" and api = "\<lambda>p n. Wrote (Some ''text'')"
      and pending_file = "Some ''missing.png\<newline>\<newline>''"] h
  have empty: "load_pending (fst (transcribe_pending (\<lambda>p. False) (\<lambda>p n. Wrote (Some ''text''))
        (Some ''missing.png\<newline>\<newline>''))) = []"
    by blast
  have run: "transcribe_pending (\<lambda>p. False) (\<lambda>p n. Wrote (Some ''text'')) (Some ''missing.png\<newline>\<newline>'')
       = (''\<newline>'', [Warning ''missing.png'', Unlist ''missing.png''])"
    by code_simp
  show ?thesis
    by (intro conjI) (rule n l one mixed empty run)+
qed


section \<open>Composing the prompt\<close>

text \<open>
  Claim C4. Composition is a function of the image's basename, the global context, the
  individual contexts and the prompt text: without an individual entry and with an empty
  global context it returns the prompt text unchanged; with a global context \<open>G\<close> alone it
  puts \<open>Given the context: G\<close> and a line break before it; with an individual entry \<open>X\<close>
  alone it puts \<open>Given the context: X\<close> and a line break before it; with both, the context
  is \<open>G\<close>, a line break, \<open>X\<close>. The script's \<open>compose_prompt\<close> is this function on its
  fixed prompt text.
\<close>

theorem compose_prompt_cases:
  "(m n = None \<longrightarrow> compose n [] m base = base)
   \<and> (m n = None \<and> G \<noteq> [] \<longrightarrow> compose n G m base = ''Given the context: '' @ G @ ''\<newline>'' @ base)
   \<and> (m n = Some X \<and> X \<noteq> [] \<longrightarrow>
        compose n [] m base = ''Given the context: '' @ X @ ''\<newline>'' @ base)
   \<and> (m n = Some X \<and> G \<noteq> [] \<longrightarrow>
        compose n G m base = ''Given the context: '' @ G @ ''\<newline>'' @ X @ ''\<newline>'' @ base)
   \<and> compose_prompt G m n = compose n G m base_prompt"
  by (simp add: compose_def compose_prompt_def)

theorem compose_prompt_cases_witness:
  "compose_prompt [] Map.empty ''img1'' = base_prompt
   \<and> compose_prompt ''G'' Map.empty ''img1'' = ''Given the context: G\<newline>'' @ base_prompt
   \<and> compose_prompt [] [''img1'' \<mapsto> ''X''] ''img1'' = ''Given the context: X\<newline>'' @ base_prompt
   \<and> compose_prompt ''G'' [''img1'' \<mapsto> ''X''] ''img1'' = ''Given the context: G\<newline>X\<newline>'' @ base_prompt"
  using compose_prompt_cases [of Map.empty "''img1''" base_prompt "''G''" "''X''"]
        compose_prompt_cases [of Map.empty "''img1''" base_prompt "[]" "''X''"]
        compose_prompt_cases [of "[''img1'' \<mapsto> ''X'']" "''img1''" base_prompt "''G''" "''X''"]
        compose_prompt_cases [of "[''img1'' \<mapsto> ''X'']" "''img1''" base_prompt "[]" "''X''"]
  by simp


section \<open>Individual context files\<close>

lemma replace_context_hit:
  "prefix ''_context'' (c # cs) \<Longrightarrow> replace_context (c # cs) = replace_context (drop 8 (c # cs))"
  by (simp only: replace_context.simps(2) if_P)

lemma replace_context_miss:
  "\<not> prefix ''_context'' (c # cs) \<Longrightarrow> replace_context (c # cs) = c # replace_context cs"
  by (simp only: replace_context.simps(2) if_not_P if_False)

lemma length_replace_context: "length (replace_context s) \<le> length s"
proof (induction s rule: replace_context.induct)
  case 1 show ?case by simp
next
  case (2 c cs)
  show ?case
  proof (cases "prefix ''_context'' (c # cs)")
    case True
    with 2 have "length (replace_context (drop 8 (c # cs))) \<le> length (drop 8 (c # cs))" by blast
    also have "\<dots> \<le> length (c # cs)" by simp
    finally show ?thesis by (simp only: replace_context_hit [OF True])
  next
    case False
    with 2 have "length (replace_context cs) \<le> length cs" by blast
    then show ?thesis by (simp only: replace_context_miss [OF False]) simp
  qed
qed

lemma context_overlap:
  assumes "prefix ''_context'' (xs @ ''_context'')" and "xs \<noteq> []"
  shows "prefix ''_context'' xs"
proof -
  from assms(1) consider "prefix ''_context'' xs"
    | us where "''_context'' = xs @ us" "prefix us ''_context''"
    by (auto simp: prefix_append)
  then show ?thesis
  proof cases
    case 1 then show ?thesis .
  next
    case 2
    with assms(2) show ?thesis
      by (auto simp: Cons_eq_append_conv)
  qed
qed

lemma replace_context_suffix:
  "replace_context b = b \<Longrightarrow> replace_context (b @ ''_context'') = b"
proof (induction b)
  case Nil
  show ?case by simp
next
  case (Cons c cs)
  have np: "\<not> prefix ''_context'' (c # cs)"
  proof
    assume p: "prefix ''_context'' (c # cs)"
    have "length (replace_context (drop 8 (c # cs))) \<le> length (drop 8 (c # cs))"
      by (rule length_replace_context)
    also have "\<dots> < length (c # cs)" by simp
    finally have "length (replace_context (c # cs)) < length (c # cs)"
      by (simp only: replace_context_hit [OF p])
    with Cons.prems show False by simp
  qed
  from replace_context_miss [OF np] Cons.prems have "replace_context cs = cs" by simp
  then have ih: "replace_context (cs @ ''_context'') = cs" by (rule Cons.IH)
  from np have "\<not> prefix ''_context'' ((c # cs) @ ''_context'')"
    using context_overlap [of "c # cs"] by blast
  then have "\<not> prefix ''_context'' (c # (cs @ ''_context''))" by simp
  then have "replace_context (c # (cs @ ''_context'')) = c # replace_context (cs @ ''_context'')"
    by (rule replace_context_miss)
  with ih show ?case by simp
qed

lemma rfind_dot_txt: "rfind (CHR ''.'') (b @ ''_context.txt'') = int (length b) + 8"
  by (simp add: rfind_def)

lemma rfind_less: "rfind c s < int (length s)"
  by (simp add: rfind_def)

lemma rfind_append_absent:
  assumes "c \<notin> set t"
  shows "rfind c (b @ t) = rfind c b"
proof -
  from assms have "takeWhile (\<lambda>x. x \<noteq> c) (rev t @ rev b) = rev t @ takeWhile (\<lambda>x. x \<noteq> c) (rev b)"
    by (intro takeWhile_append2) auto
  with assms show ?thesis by (simp add: rfind_def)
qed

lemma rfind_slash_txt: "rfind (CHR ''/'') (b @ ''_context.txt'') < int (length b)"
  by (simp add: rfind_append_absent rfind_less)

lemma splitext_context_txt: "splitext (b @ ''_context.txt'') = (b @ ''_context'', ''.txt'')"
proof -
  let ?p = "b @ ''_context.txt''"
  have d: "rfind (CHR ''.'') ?p = int (length b) + 8" by (rule rfind_dot_txt)
  have s: "rfind (CHR ''/'') ?p < int (length b)" by (rule rfind_slash_txt)
  have "length b \<in> set [nat (rfind (CHR ''/'') ?p + 1) ..< nat (int (length b) + 8)]"
    using s by auto
  moreover have "?p ! length b \<noteq> CHR ''.''" by simp
  ultimately have "list_ex (\<lambda>k. ?p ! k \<noteq> CHR ''.'') [nat (rfind (CHR ''/'') ?p + 1) ..< nat (int (length b) + 8)]"
    unfolding list_ex_iff by blast
  moreover have "nat (int (length b) + 8) = length b + 8" by simp
  ultimately show ?thesis
    using s by (simp add: splitext_def d Let_def)
qed

lemma context_key_of_name: "replace_context b = b \<Longrightarrow> context_key (b @ ''_context.txt'') = b"
  by (simp add: context_key_def splitext_context_txt replace_context_suffix)

lemma lower_append: "lower (a @ b) = lower a @ lower b"
  by (simp add: lower_def)

lemma lower_context_txt: "lower ''_context.txt'' = ''_context.txt''"
  by (simp add: lower_def lower_char_def)

lemma is_individual_of_name:
  "lower b \<noteq> ''all_document'' \<Longrightarrow> is_individual_context_file (b @ ''_context.txt'')"
  by (simp add: is_individual_context_file_def endswith_def lower_append lower_context_txt suffix_def)

lemma load_individual_source:
  "load_individual es m n = Some x \<Longrightarrow>
     m n = Some x \<or> (\<exists>(f, t) \<in> set es. context_key f = n \<and> x = strip t)"
proof (induction es arbitrary: m)
  case Nil
  then show ?case by simp
next
  case (Cons e es)
  obtain f t where e: "e = (f, t)" by (cases e)
  from Cons.prems have "load_individual es (m(context_key f \<mapsto> strip t)) n = Some x"
    by (simp add: e)
  from Cons.IH [OF this] show ?case
    by (auto simp: e split: if_splits)
qed

lemma load_context_mapping_source:
  assumes "load_context_mapping (Some entries) n = Some x"
  shows "\<exists>(f, t) \<in> set entries. is_individual_context_file f \<and> context_key f = n \<and> x = strip t"
proof -
  from assms have "load_individual (filter (\<lambda>(f, text). is_individual_context_file f) entries) Map.empty n = Some x"
    by (simp add: load_context_mapping_def)
  from load_individual_source [OF this] show ?thesis by auto
qed

lemma load_individual_map_of:
  "load_individual es m = m ++ map_of (rev (map (\<lambda>(f, t). (context_key f, strip t)) es))"
proof (induction es arbitrary: m)
  case Nil
  show ?case by simp
next
  case (Cons e es)
  obtain f t where e: "e = (f, t)" by (cases e)
  have "load_individual (e # es) m = load_individual es (m(context_key f \<mapsto> strip t))"
    by (simp add: e)
  then show ?case
    by (simp only: Cons.IH) (rule ext, simp add: e map_add_def split: option.splits)
qed

lemma load_context_mapping_map_of:
  "load_context_mapping (Some entries)
     = map_of (rev (map (\<lambda>(f, t). (context_key f, strip t))
                 (filter (\<lambda>(f, t). is_individual_context_file f) entries)))"
  by (simp add: load_context_mapping_def load_individual_map_of)

lemma map_of_agreeing:
  assumes "(k, v) \<in> set xs" and "\<forall>(k', v') \<in> set xs. k' = k \<longrightarrow> v' = v"
  shows "map_of xs k = Some v"
proof -
  from assms(1) have "k \<in> fst ` set xs" by force
  then have "map_of xs k \<noteq> None" by (simp add: map_of_eq_None_iff)
  then obtain v' where v': "map_of xs k = Some v'" by blast
  then have "(k, v') \<in> set xs" by (rule map_of_SomeD)
  with assms(2) have "v' = v" by blast
  with v' show ?thesis by simp
qed

lemma map_of_rev_other_keys:
  assumes "\<forall>e \<in> set es. Q e \<longrightarrow> fst (h e) \<noteq> n"
  shows "map_of (rev (map h (filter P es))) n
           = map_of (rev (map h (filter P (filter (\<lambda>e. \<not> Q e) es)))) n"
  using assms
proof (induction es)
  case Nil
  show ?case by simp
next
  case (Cons e es)
  then have ih: "map_of (rev (map h (filter P es))) n
           = map_of (rev (map h (filter P (filter (\<lambda>e. \<not> Q e) es)))) n"
    by simp
  from Cons.prems have q: "Q e \<longrightarrow> fst (h e) \<noteq> n" by simp
  obtain k v where h: "h e = (k, v)" by (cases "h e")
  show ?case
    using ih q by (auto simp: map_add_def h split: option.splits)
qed

text \<open>
  Claim C8, as the script has it. Context files are recognised by name without regard to
  letter case, but each is matched against an image's basename by exact equality with its
  key, the file name without its extension and with every \<open>_context\<close> cut out; for a
  file \<open>b_context.txt\<close>, where \<open>b\<close> does not contain the text \<open>_context\<close> and is not
  \<open>all_document\<close> in any letter case, the key is \<open>b\<close>. In every context folder that
  holds the file, the image whose basename is exactly \<open>b\<close> receives an individual context
  in its composed prompt: the trimmed content of that file when all recognised files of
  the folder with the key \<open>b\<close> have that trimmed content (of several, the last listed
  gives the context). To an image with any other basename, also one that differs from
  \<open>b\<close> in letter case only, the file gives nothing: its context is what the folder
  without the file gives, and an image has an individual context only from a file whose
  key equals its basename.
\<close>

theorem context_matched_by_exact_name:
  assumes "replace_context b = b" and "lower b \<noteq> ''all_document''"
  shows "is_individual_context_file (b @ ''_context.txt'')
       \<and> context_key (b @ ''_context.txt'') = b
       \<and> (lower f = lower f' \<longrightarrow> is_individual_context_file f = is_individual_context_file f')
       \<and> load_context_mapping (Some entries) n
           = map_of (rev (map (\<lambda>(f, t). (context_key f, strip t))
                       (filter (\<lambda>(f, t). is_individual_context_file f) entries))) n
       \<and> ((b @ ''_context.txt'', body) \<in> set entries \<longrightarrow>
            load_context_mapping (Some entries) b \<noteq> None)
       \<and> ((b @ ''_context.txt'', body) \<in> set entries
           \<and> (\<forall>(f, t) \<in> set entries.
                 is_individual_context_file f \<and> context_key f = b \<longrightarrow> strip t = strip body)
           \<longrightarrow> load_context_mapping (Some entries) b = Some (strip body)
               \<and> (strip body \<noteq> [] \<longrightarrow>
                    compose_prompt [] (load_context_mapping (Some entries)) b
                      = ''Given the context: '' @ strip body @ ''\<newline>'' @ base_prompt)
               \<and> (g \<noteq> [] \<longrightarrow>
                    compose_prompt g (load_context_mapping (Some entries)) b
                      = ''Given the context: '' @ g @ ''\<newline>'' @ strip body @ ''\<newline>''
                          @ base_prompt))
       \<and> (n \<noteq> b \<longrightarrow>
            load_context_mapping (Some entries) n
              = load_context_mapping
                  (Some (filter (\<lambda>(f, t). f \<noteq> b @ ''_context.txt'') entries)) n
            \<and> compose_prompt g (load_context_mapping (Some entries)) n
              = compose_prompt g
                  (load_context_mapping
                     (Some (filter (\<lambda>(f, t). f \<noteq> b @ ''_context.txt'') entries))) n)
       \<and> (load_context_mapping (Some entries) n = Some x \<longrightarrow>
            (\<exists>(f, t) \<in> set entries.
               is_individual_context_file f \<and> context_key f = n \<and> x = strip t))
       \<and> (load_context_mapping (Some entries) n = None \<longrightarrow>
            compose_prompt g (load_context_mapping (Some entries)) n
              = compose_prompt g Map.empty n)
       \<and> (load_context_mapping (Some entries) n = Some x \<and> g \<noteq> [] \<longrightarrow>
            compose_prompt g (load_context_mapping (Some entries)) n
              = ''Given the context: '' @ g @ ''\<newline>'' @ x @ ''\<newline>'' @ base_prompt)
       \<and> (load_context_mapping (Some entries) n = Some x \<and> x \<noteq> [] \<longrightarrow>
            compose_prompt [] (load_context_mapping (Some entries)) n
              = ''Given the context: '' @ x @ ''\<newline>'' @ base_prompt)
       \<and> is_individual_context_file f
            = (endswith (lower f) ''_context.txt'' \<and> lower f \<noteq> ''all_document_context.txt'')"
proof -
  let ?name = "b @ ''_context.txt''"
  let ?h = "\<lambda>(f, t). (context_key f, strip t)"
  let ?P = "\<lambda>(f, t). is_individual_context_file f"
  let ?m = "load_context_mapping (Some entries)"
  have k: "context_key ?name = b"
    using assms(1) by (rule context_key_of_name)
  have i: "is_individual_context_file ?name"
    using assms(2) by (rule is_individual_of_name)
  have ci: "lower f = lower f' \<longrightarrow> is_individual_context_file f = is_individual_context_file f'"
    by (simp add: is_individual_context_file_def)
  have m: "?m n = map_of (rev (map ?h (filter ?P entries))) n" for n
    by (simp add: load_context_mapping_map_of)
  have some: "(?name, body) \<in> set entries \<longrightarrow> ?m b \<noteq> None"
  proof
    assume "(?name, body) \<in> set entries"
    with i have "(b, strip body) \<in> set (rev (map ?h (filter ?P entries)))"
      using k by force
    then have "b \<in> fst ` set (rev (map ?h (filter ?P entries)))" by force
    then show "?m b \<noteq> None" by (simp only: m map_of_eq_None_iff) simp
  qed
  have pos: "(?name, body) \<in> set entries
           \<and> (\<forall>(f, t) \<in> set entries.
                 is_individual_context_file f \<and> context_key f = b \<longrightarrow> strip t = strip body)
           \<longrightarrow> ?m b = Some (strip body)
               \<and> (strip body \<noteq> [] \<longrightarrow>
                    compose_prompt [] ?m b
                      = ''Given the context: '' @ strip body @ ''\<newline>'' @ base_prompt)
               \<and> (g \<noteq> [] \<longrightarrow>
                    compose_prompt g ?m b
                      = ''Given the context: '' @ g @ ''\<newline>'' @ strip body @ ''\<newline>''
                          @ base_prompt)"
  proof
    assume a: "(?name, body) \<in> set entries
           \<and> (\<forall>(f, t) \<in> set entries.
                 is_individual_context_file f \<and> context_key f = b \<longrightarrow> strip t = strip body)"
    with i k have "(b, strip body) \<in> set (rev (map ?h (filter ?P entries)))" by force
    moreover from a have "\<forall>(k', v') \<in> set (rev (map ?h (filter ?P entries))).
        k' = b \<longrightarrow> v' = strip body"
      by auto
    ultimately have "map_of (rev (map ?h (filter ?P entries))) b = Some (strip body)"
      by (rule map_of_agreeing)
    then have mb: "?m b = Some (strip body)" by (simp only: m)
    then show "?m b = Some (strip body)
               \<and> (strip body \<noteq> [] \<longrightarrow>
                    compose_prompt [] ?m b
                      = ''Given the context: '' @ strip body @ ''\<newline>'' @ base_prompt)
               \<and> (g \<noteq> [] \<longrightarrow>
                    compose_prompt g ?m b
                      = ''Given the context: '' @ g @ ''\<newline>'' @ strip body @ ''\<newline>''
                          @ base_prompt)"
      by (simp add: compose_prompt_def compose_def)
  qed
  let ?others = "filter (\<lambda>(f, t). f \<noteq> ?name) entries"
  have neg: "n \<noteq> b \<longrightarrow>
            ?m n = load_context_mapping (Some ?others) n
            \<and> compose_prompt g ?m n = compose_prompt g (load_context_mapping (Some ?others)) n"
  proof
    assume nb: "n \<noteq> b"
    have "\<forall>e \<in> set entries. (\<lambda>(f, t). f = ?name) e \<longrightarrow> fst (?h e) \<noteq> n"
      using k nb by auto
    from map_of_rev_other_keys [where Q = "\<lambda>(f, t). f = ?name" and h = ?h and P = ?P, OF this]
    have "map_of (rev (map ?h (filter ?P entries))) n
        = map_of (rev (map ?h (filter ?P (filter (\<lambda>e. \<not> (\<lambda>(f, t). f = ?name) e) entries)))) n" .
    moreover have "filter (\<lambda>e. \<not> (\<lambda>(f, t). f = ?name) e) entries = ?others"
      by (intro filter_cong refl) auto
    ultimately have e: "?m n = load_context_mapping (Some ?others) n"
      by (simp only: load_context_mapping_map_of)
    then show "?m n = load_context_mapping (Some ?others) n
            \<and> compose_prompt g ?m n = compose_prompt g (load_context_mapping (Some ?others)) n"
      by (simp add: compose_prompt_def compose_def)
  qed
  have src: "?m n = Some x \<longrightarrow>
            (\<exists>(f, t) \<in> set entries.
               is_individual_context_file f \<and> context_key f = n \<and> x = strip t)"
    using load_context_mapping_source by blast
  have none: "?m n = None \<longrightarrow> compose_prompt g ?m n = compose_prompt g Map.empty n"
    by (simp add: compose_prompt_def compose_def)
  have both: "?m n = Some x \<and> g \<noteq> [] \<longrightarrow>
            compose_prompt g ?m n
              = ''Given the context: '' @ g @ ''\<newline>'' @ x @ ''\<newline>'' @ base_prompt"
    by (simp add: compose_prompt_def compose_def)
  have alone: "?m n = Some x \<and> x \<noteq> [] \<longrightarrow>
            compose_prompt [] ?m n = ''Given the context: '' @ x @ ''\<newline>'' @ base_prompt"
    by (simp add: compose_prompt_def compose_def)
  have recog: "is_individual_context_file f
            = (endswith (lower f) ''_context.txt'' \<and> lower f \<noteq> ''all_document_context.txt'')"
    by (simp add: is_individual_context_file_def)
  show ?thesis
    by (intro conjI) (rule i k ci m some pos neg src none both alone recog)+
qed

theorem context_matched_by_exact_name_witness:
  "replace_context ''img1'' = ''img1'' \<and> lower ''img1'' \<noteq> ''all_document''
   \<and> (''img1_context.txt'', '' X\<newline>'')
        \<in> set [(''ALL_DOCUMENT_CONTEXT.txt'', ''G''), (''img1_context.txt'', '' X\<newline>''),
               (''page2_context.txt'', ''Y'')]
   \<and> load_context_mapping
        (Some [(''ALL_DOCUMENT_CONTEXT.txt'', ''G''), (''img1_context.txt'', '' X\<newline>''),
               (''page2_context.txt'', ''Y'')]) ''img1'' = Some ''X''
   \<and> compose_prompt ''G''
        (load_context_mapping
          (Some [(''ALL_DOCUMENT_CONTEXT.txt'', ''G''), (''img1_context.txt'', '' X\<newline>''),
                 (''page2_context.txt'', ''Y'')])) ''img1''
       = ''Given the context: G\<newline>X\<newline>'' @ base_prompt
   \<and> load_context_mapping
        (Some [(''ALL_DOCUMENT_CONTEXT.txt'', ''G''), (''img1_context.txt'', '' X\<newline>''),
               (''page2_context.txt'', ''Y'')]) ''Img1'' = None
   \<and> compose_prompt ''G''
        (load_context_mapping
          (Some [(''ALL_DOCUMENT_CONTEXT.txt'', ''G''), (''img1_context.txt'', '' X\<newline>''),
                 (''page2_context.txt'', ''Y'')])) ''Img1''
       = ''Given the context: G\<newline>'' @ base_prompt
   \<and> is_individual_context_file ''Img1_Context.TXT''"
proof -
  let ?es = "[(''ALL_DOCUMENT_CONTEXT.txt'', ''G''), (''img1_context.txt'', '' X\<newline>''),
              (''page2_context.txt'', ''Y'')]"
  have a: "replace_context ''img1'' = ''img1''" by simp
  have b: "lower ''img1'' \<noteq> ''all_document''" by (simp add: lower_def)
  have c: "(''img1_context.txt'', '' X\<newline>'') \<in> set ?es" by simp
  have d: "\<forall>(f, t) \<in> set ?es.
      is_individual_context_file f \<and> context_key f = ''img1'' \<longrightarrow> strip t = strip '' X\<newline>''"
    by code_simp
  have s: "strip '' X\<newline>'' = ''X''" by (simp add: strip_def isspace_def)
  have g: "''G'' \<noteq> []" by simp
  have l: "lower ''Img1_Context.TXT'' = lower ''img1_context.txt''" by code_simp
  have none: "load_context_mapping (Some ?es) ''Img1'' = None" by code_simp
  have e: "compose_prompt ''G'' Map.empty ''Img1'' = ''Given the context: G\<newline>'' @ base_prompt"
    by (simp add: compose_prompt_def compose_def)
  note t = context_matched_by_exact_name [OF a b]
  note pos = t [where entries = ?es and body = "'' X\<newline>''" and g = "''G''",
      THEN conjunct2, THEN conjunct2, THEN conjunct2, THEN conjunct2, THEN conjunct2,
      THEN conjunct1]
  note absent = t [where entries = ?es and n = "''Img1''" and g = "''G''",
      THEN conjunct2, THEN conjunct2, THEN conjunct2, THEN conjunct2, THEN conjunct2,
      THEN conjunct2, THEN conjunct2, THEN conjunct2, THEN conjunct1]
  note fold = t [where f = "''Img1_Context.TXT''" and f' = "''img1_context.txt''",
      THEN conjunct2, THEN conjunct2, THEN conjunct1]
  note known = t [THEN conjunct1]
  have cd: "(''img1'' @ ''_context.txt'', '' X\<newline>'') \<in> set ?es
      \<and> (\<forall>(f, t) \<in> set ?es.
            is_individual_context_file f \<and> context_key f = ''img1'' \<longrightarrow> strip t = strip '' X\<newline>'')"
    using c d by simp
  note both = mp [OF pos cd]
  have q1: "load_context_mapping (Some ?es) ''img1'' = Some (strip '' X\<newline>'')"
    by (rule both [THEN conjunct1])
  have q2: "''G'' \<noteq> [] \<longrightarrow> compose_prompt ''G'' (load_context_mapping (Some ?es)) ''img1''
       = ''Given the context: '' @ ''G'' @ ''\<newline>'' @ strip '' X\<newline>'' @ ''\<newline>'' @ base_prompt"
    by (rule both [THEN conjunct2, THEN conjunct2])
  from q1 have p1: "load_context_mapping (Some ?es) ''img1'' = Some ''X''"
    by (simp only: s)
  from mp [OF q2 g] have p2: "compose_prompt ''G'' (load_context_mapping (Some ?es)) ''img1''
       = ''Given the context: G\<newline>X\<newline>'' @ base_prompt"
    by (simp only: s) simp
  from mp [OF absent none] have p3: "compose_prompt ''G'' (load_context_mapping (Some ?es)) ''Img1''
       = ''Given the context: G\<newline>'' @ base_prompt"
    by (simp only: e)
  from mp [OF fold l] known have p4: "is_individual_context_file ''Img1_Context.TXT''"
    by simp
  show ?thesis
    by (intro conjI) (rule a b c p1 p2 none p3 p4)+
qed

text \<open>
  The claim C8 as stated fails: the image \<open>IMG1.jpeg\<close> and the context file
  \<open>img1_context.txt\<close> differ in letter case only, and the prompt composed for the image
  is the plain prompt text, while the image \<open>img1.jpeg\<close> is given the context.
\<close>

theorem uppercase_image_gets_no_context:
  "lower ''IMG1'' = lower ''img1''
   \<and> base_name ''/out/IMG1.jpeg'' = ''IMG1''
   \<and> load_context_mapping (Some [(''img1_context.txt'', ''X'')]) ''IMG1'' = None
   \<and> compose_prompt [] (load_context_mapping (Some [(''img1_context.txt'', ''X'')]))
        (base_name ''/out/IMG1.jpeg'') = base_prompt
   \<and> compose_prompt [] (load_context_mapping (Some [(''img1_context.txt'', ''X'')]))
        (base_name ''/out/img1.jpeg'') = ''Given the context: X\<newline>'' @ base_prompt"
  by code_simp

section \<open>Populating the ledgers\<close>

lemma scan_marker_find:
  "scan_marker ls = (find (\<lambda>s. s \<noteq> [] \<and> \<not> startswith s ''#'') (map strip ls) \<noteq> Some ''$$done$$'')"
  by (induction ls) (auto simp: Let_def)

lemma repopulate_iff:
  "\<not> repopulate tracking_file \<longleftrightarrow>
     (\<exists>content. tracking_file = Some content \<and> first_meaningful content = Some ''$$done$$'')"
  by (cases tracking_file) (simp_all add: repopulate_def first_meaningful_def scan_marker_find)

lemma readlines_append:
  "xs = [] \<or> last xs = CHR 0x0A \<Longrightarrow> readlines (xs @ ys) = readlines xs @ readlines ys"
proof (induction xs)
  case Nil
  show ?case by simp
next
  case (Cons c cs)
  show ?case
  proof (cases "cs = []")
    case True
    with Cons.prems show ?thesis by simp
  next
    case False
    with Cons.prems have "last cs = CHR 0x0A" by simp
    with Cons.IH have ih: "readlines (cs @ ys) = readlines cs @ readlines ys" by simp
    from False have "readlines cs \<noteq> []" by (cases cs) (auto split: list.splits)
    then obtain l ls where "readlines cs = l # ls" by (cases "readlines cs") auto
    with ih show ?thesis by simp
  qed
qed

lemma concat_lines_terminated:
  "concat (map (\<lambda>path. path @ ''\<newline>'') ps) = [] \<or> last (concat (map (\<lambda>path. path @ ''\<newline>'') ps)) = CHR 0x0A"
  by (induction ps rule: rev_induct) simp_all

lemma readlines_marker: "readlines ''$$done$$\<newline>'' = [''$$done$$\<newline>'']"
  by simp

lemma last_write_tracking: "last (readlines (write_tracking image_paths)) = ''$$done$$\<newline>''"
  unfolding write_tracking_def
  by (simp only: readlines_append [OF concat_lines_terminated] readlines_marker) simp

lemma readlines_path_lines:
  "\<forall>p \<in> set ps. CHR 0x0A \<notin> set p \<Longrightarrow>
     readlines (concat (map (\<lambda>path. path @ ''\<newline>'') ps)) = map (\<lambda>path. path @ ''\<newline>'') ps"
proof (induction ps)
  case Nil show ?case by simp
next
  case (Cons p ps)
  then have "readlines (concat (map (\<lambda>path. path @ ''\<newline>'') ps)) = map (\<lambda>path. path @ ''\<newline>'') ps"
    by simp
  moreover from Cons.prems have "CHR 0x0A \<notin> set p" by simp
  ultimately show ?case by (simp add: readlines_line)
qed

text \<open>
  Claim C9, as the orchestrator has it. For the tracking file of the preprocess stage,
  repopulation is skipped exactly when the file exists (with \<^verbatim>\<open>--new\<close> it has been removed
  before) and its first meaningful line is the marker; otherwise the file is overwritten
  with the discovered paths, one per line, followed by the marker as the last line. For
  the pending file of the transcription stage there is no marker: when processed images
  were found, the file is kept exactly when it exists and \<^verbatim>\<open>--new\<close> was not given, and
  otherwise it is overwritten with the processed image paths, one per line, and nothing
  after them.
\<close>

theorem tracking_repopulated_unless_marked:
  "(\<not> repopulate tracking_file \<longleftrightarrow>
      (\<exists>content. tracking_file = Some content \<and> first_meaningful content = Some ''$$done$$''))
   \<and> populate_tracking new abs_path listing tracking_file
       = (if \<not> new \<and> (\<exists>content. tracking_file = Some content
                              \<and> first_meaningful content = Some ''$$done$$'')
          then tracking_file
          else Some (write_tracking (discover abs_path listing)))
   \<and> write_tracking image_paths
       = concat (map (\<lambda>path. path @ ''\<newline>'') image_paths) @ ''$$done$$\<newline>''
   \<and> last (readlines (write_tracking image_paths)) = ''$$done$$\<newline>''
   \<and> ((\<forall>p \<in> set image_paths. CHR 0x0A \<notin> set p) \<longrightarrow>
        readlines (write_tracking image_paths)
          = map (\<lambda>path. path @ ''\<newline>'') image_paths @ [''$$done$$\<newline>''])
   \<and> (processed_images \<noteq> [] \<longrightarrow>
        populate_pending new processed_images pending_file
          = (if \<not> new \<and> pending_file \<noteq> None then pending_file
             else Some (concat (map (\<lambda>path. path @ ''\<newline>'') processed_images))))
   \<and> ((\<forall>p \<in> set processed_images. CHR 0x0A \<notin> set p) \<longrightarrow>
        readlines (write_pending processed_images)
          = map (\<lambda>path. path @ ''\<newline>'') processed_images)"
proof -
  have 1: "\<not> repopulate tracking_file \<longleftrightarrow>
      (\<exists>content. tracking_file = Some content \<and> first_meaningful content = Some ''$$done$$'')"
    by (rule repopulate_iff)
  have n: "repopulate None" by (simp add: repopulate_def)
  have 2: "populate_tracking new abs_path listing tracking_file
       = (if \<not> new \<and> (\<exists>content. tracking_file = Some content
                              \<and> first_meaningful content = Some ''$$done$$'')
          then tracking_file
          else Some (write_tracking (discover abs_path listing)))"
    using 1 n by (auto simp: populate_tracking_def)
  have 3: "write_tracking image_paths
       = concat (map (\<lambda>path. path @ ''\<newline>'') image_paths) @ ''$$done$$\<newline>''"
    by (simp add: write_tracking_def)
  have 4: "last (readlines (write_tracking image_paths)) = ''$$done$$\<newline>''"
    by (rule last_write_tracking)
  have 5: "(\<forall>p \<in> set image_paths. CHR 0x0A \<notin> set p) \<longrightarrow>
        readlines (write_tracking image_paths)
          = map (\<lambda>path. path @ ''\<newline>'') image_paths @ [''$$done$$\<newline>'']"
    unfolding write_tracking_def
    by (simp only: readlines_append [OF concat_lines_terminated] readlines_marker)
       (simp add: readlines_path_lines)
  have 6: "processed_images \<noteq> [] \<longrightarrow>
        populate_pending new processed_images pending_file
          = (if \<not> new \<and> pending_file \<noteq> None then pending_file
             else Some (concat (map (\<lambda>path. path @ ''\<newline>'') processed_images)))"
    by (auto simp: populate_pending_def write_pending_def)
  have 7: "(\<forall>p \<in> set processed_images. CHR 0x0A \<notin> set p) \<longrightarrow>
        readlines (write_pending processed_images)
          = map (\<lambda>path. path @ ''\<newline>'') processed_images"
    by (simp add: write_pending_def readlines_path_lines)
  from 1 2 3 4 5 6 7 show ?thesis by blast
qed

theorem tracking_repopulated_unless_marked_witness:
  "first_meaningful ''# note\<newline>$$done$$\<newline>'' = Some ''$$done$$''
   \<and> populate_tracking False (\<lambda>f. ''/in/'' @ f) [''a.PNG'', ''notes.txt''] (Some ''# note\<newline>$$done$$\<newline>'')
       = Some ''# note\<newline>$$done$$\<newline>''
   \<and> populate_tracking False (\<lambda>f. ''/in/'' @ f) [''a.PNG'', ''notes.txt''] (Some ''/in/old.png\<newline>$$done$$\<newline>'')
       = Some ''/in/a.PNG\<newline>$$done$$\<newline>''
   \<and> populate_tracking True (\<lambda>f. ''/in/'' @ f) [''a.PNG'', ''notes.txt''] (Some ''# note\<newline>$$done$$\<newline>'')
       = Some ''/in/a.PNG\<newline>$$done$$\<newline>''
   \<and> readlines (write_tracking [''/in/a.PNG'']) = [''/in/a.PNG\<newline>'', ''$$done$$\<newline>'']
   \<and> populate_pending False [''/out/a.jpeg''] None = Some ''/out/a.jpeg\<newline>''
   \<and> readlines (write_pending [''/out/a.jpeg'']) = [''/out/a.jpeg\<newline>'']"
proof -
  have f1: "first_meaningful ''# note\<newline>$$done$$\<newline>'' = Some ''$$done$$''"
    by (simp add: first_meaningful_def strip_def isspace_def startswith_def)
  have f2: "first_meaningful ''/in/old.png\<newline>$$done$$\<newline>'' = Some ''/in/old.png''"
    by (simp add: first_meaningful_def strip_def isspace_def startswith_def)
  have d: "discover (\<lambda>f. ''/in/'' @ f) [''a.PNG'', ''notes.txt''] = [''/in/a.PNG'']"
    by (simp add: discover_def valid_exts_def endswith_def lower_def lower_char_def suffix_to_prefix)
  have w: "write_tracking [''/in/a.PNG''] = ''/in/a.PNG\<newline>$$done$$\<newline>''"
    by (simp add: write_tracking_def)
  have h1: "\<forall>p \<in> set [''/in/a.PNG'']. CHR 0x0A \<notin> set p" by simp
  have h2: "\<forall>p \<in> set [''/out/a.jpeg'']. CHR 0x0A \<notin> set p" by simp
  have h3: "[''/out/a.jpeg''] \<noteq> []" by simp
  note t = tracking_repopulated_unless_marked
  from t [of "Some ''# note\<newline>$$done$$\<newline>''" False "\<lambda>f. ''/in/'' @ f" "[''a.PNG'', ''notes.txt'']"]
       t [of "Some ''/in/old.png\<newline>$$done$$\<newline>''" False "\<lambda>f. ''/in/'' @ f" "[''a.PNG'', ''notes.txt'']"]
       t [of "Some ''# note\<newline>$$done$$\<newline>''" True "\<lambda>f. ''/in/'' @ f" "[''a.PNG'', ''notes.txt'']"
            "[''/in/a.PNG'']" "[''/out/a.jpeg'']" None]
       h1 h2 h3
  show ?thesis by (simp add: f1 f2 d w)
qed

text \<open>
  The claim C9 as stated, for every stage ledger, fails on the pending file: a pending
  file whose first meaningful line is an image path and not the marker is left as it is,
  and a pending file that is written ends with the last image path, not with the marker.
\<close>

theorem pending_ledger_has_no_marker:
  "first_meaningful ''/out/a.jpeg\<newline>'' = Some ''/out/a.jpeg''
   \<and> populate_pending False [''/out/a.jpeg'', ''/out/b.jpeg''] (Some ''/out/a.jpeg\<newline>'')
       = Some ''/out/a.jpeg\<newline>''
   \<and> populate_pending False [''/out/a.jpeg'', ''/out/b.jpeg''] None
       = Some ''/out/a.jpeg\<newline>/out/b.jpeg\<newline>''"
  by code_simp


section \<open>Draining the preprocess ledger\<close>

lemma process_loop_result:
  "process_loop cv (Some content) ps
     = (Some (concat (filter (\<lambda>line. strip line \<notin> set ps) (readlines content))),
        concat (map (\<lambda>p. [Preprocess p (preprocess_image_for_ocr cv p), Untrack p]) ps))"
proof (induction ps arbitrary: content)
  case Nil
  show ?case by (simp add: concat_readlines)
next
  case (Cons p ps)
  let ?content' = "concat (filter (\<lambda>line. strip line \<noteq> p) (readlines content))"
  have u: "update_tracking_file (Some content) p = Some ?content'"
    by (simp add: update_tracking_file_def)
  have r: "readlines ?content' = filter (\<lambda>line. strip line \<noteq> p) (readlines content)"
    by (rule readlines_rewrite)
  have f: "filter (\<lambda>line. strip line \<notin> set ps) (filter (\<lambda>line. strip line \<noteq> p) (readlines content))
         = filter (\<lambda>line. strip line \<notin> set (p # ps)) (readlines content)"
    by (auto intro: filter_cong)
  show ?case
    by (simp only: process_loop.simps Let_def u Cons.IH r f prod.case) simp
qed

lemma process_images_result:
  "process_images cv (Some content)
     = (Some (concat (filter (\<lambda>line. strip line \<notin> set (filter valid_image_path (load_tracking content)))
                       (readlines content))),
        concat (map (\<lambda>p. [Preprocess p (preprocess_image_for_ocr cv p), Untrack p])
                 (filter valid_image_path (load_tracking content))))"
proof (cases "filter valid_image_path (load_tracking content) = []")
  case True
  then show ?thesis
    by (simp add: process_images_def concat_readlines Let_def)
next
  case False
  then show ?thesis
    by (simp add: process_images_def Let_def process_loop_result)
qed

lemma hash_not_space: "\<not> isspace (CHR ''#'')"
  by (simp add: isspace_def)

lemma strip_keeps_hash:
  assumes "startswith l ''#''"
  shows "startswith (strip l) ''#''"
proof -
  from assms obtain r where l: "l = CHR ''#'' # r"
    by (auto simp: startswith_def prefix_def)
  have d: "dropWhile isspace l = l" by (simp add: l hash_not_space)
  have "\<exists>t. dropWhile isspace (rev r @ [CHR ''#'']) = t @ [CHR ''#'']"
  proof (cases "\<forall>x \<in> set (rev r). isspace x")
    case True
    then have "dropWhile isspace (rev r @ [CHR ''#'']) = dropWhile isspace [CHR ''#'']"
      by (intro dropWhile_append2) auto
    then show ?thesis by (simp add: hash_not_space)
  next
    case False
    then obtain x where "x \<in> set (rev r)" "\<not> isspace x" by blast
    then have "dropWhile isspace (rev r @ [CHR ''#'']) = dropWhile isspace (rev r) @ [CHR ''#'']"
      by (rule dropWhile_append1)
    then show ?thesis by blast
  qed
  then obtain t where "dropWhile isspace (rev l) = t @ [CHR ''#'']" by (auto simp: l)
  then have "strip l = CHR ''#'' # rev t" by (simp add: strip_def d)
  then show ?thesis by (simp add: startswith_def)
qed

lemma marker_not_image: "\<not> valid_image_path ''$$done$$''"
  by code_simp

lemma find_unique_kind:
  assumes "\<exists>x \<in> set xs. P x" and "\<forall>x \<in> set xs. P x \<longrightarrow> x = d"
  shows "find P xs = Some d"
proof -
  from assms(1) have "find P xs \<noteq> None" by (auto simp: find_None_iff)
  then obtain y where y: "find P xs = Some y" by blast
  then have "y \<in> set xs \<and> P y" by (auto simp: find_Some_iff)
  with assms(2) y show ?thesis by blast
qed

text \<open>
  The orchestrator selects image files by the end of their names, the preprocess stage by
  the extension that \<open>splitext\<close> finds; a name that is nothing but dots and an extension
  passes the first test and not the second.
\<close>

lemma dot_name_discovered_not_valid:
  "discover (\<lambda>file. ''/in/'' @ file) [''.png''] = [''/in/.png'']
   \<and> \<not> valid_image_path ''/in/.png''"
  by code_simp

text \<open>
  Claim C10, as the code has it. The preprocess stage hands to the preprocessor, and takes
  off the tracking file, only paths whose extension is one of \<open>VALID_EXTS\<close>; the marker is
  not such a path. After the run the file holds, in their order, the lines it had whose
  stripped text is not one of the processed paths, so every line whose stripped text has
  no valid extension, and every marker line, is still there. The marker is the first
  meaningful line after the run when the file holds the marker and each of its meaningful
  lines is the marker or a path with a valid extension.
\<close>

theorem preprocess_drain_keeps_marker:
  "(\<forall>p ok. Preprocess p ok \<in> set (snd (process_images cv (Some content))) \<longrightarrow> valid_image_path p)
   \<and> (\<forall>p. Untrack p \<in> set (snd (process_images cv (Some content))) \<longrightarrow> valid_image_path p)
   \<and> \<not> valid_image_path ''$$done$$''
   \<and> (\<exists>final. fst (process_images cv (Some content)) = Some final
        \<and> readlines final
            = filter (\<lambda>line. strip line \<notin> set (filter valid_image_path (load_tracking content)))
                (readlines content)
        \<and> (\<forall>line \<in> set (readlines content).
              \<not> valid_image_path (strip line) \<longrightarrow> line \<in> set (readlines final))
        \<and> (\<forall>line \<in> set (readlines content).
              strip line = ''$$done$$'' \<longrightarrow> line \<in> set (readlines final))
        \<and> (''$$done$$'' \<in> set (map strip (readlines content))
            \<and> (\<forall>line \<in> set (readlines content).
                  strip line \<noteq> [] \<and> \<not> startswith (strip line) ''#''
                    \<longrightarrow> strip line = ''$$done$$'' \<or> valid_image_path (strip line))
            \<longrightarrow> first_meaningful final = Some ''$$done$$''))"
proof -
  let ?tp = "filter valid_image_path (load_tracking content)"
  let ?final = "concat (filter (\<lambda>line. strip line \<notin> set ?tp) (readlines content))"
  let ?ev = "concat (map (\<lambda>p. [Preprocess p (preprocess_image_for_ocr cv p), Untrack p]) ?tp)"
  have res: "process_images cv (Some content) = (Some ?final, ?ev)"
    by (rule process_images_result)
  have ev1: "\<forall>p ok. Preprocess p ok \<in> set ?ev \<longrightarrow> valid_image_path p" by auto
  have ev2: "\<forall>p. Untrack p \<in> set ?ev \<longrightarrow> valid_image_path p" by auto
  have lines: "readlines ?final = filter (\<lambda>line. strip line \<notin> set ?tp) (readlines content)"
    by (rule readlines_rewrite)
  have kept: "\<forall>line \<in> set (readlines content).
      \<not> valid_image_path (strip line) \<longrightarrow> line \<in> set (readlines ?final)"
    by (simp only: lines) auto
  have marker: "\<forall>line \<in> set (readlines content).
      strip line = ''$$done$$'' \<longrightarrow> line \<in> set (readlines ?final)"
    using kept marker_not_image by auto
  have first: "''$$done$$'' \<in> set (map strip (readlines content))
            \<and> (\<forall>line \<in> set (readlines content).
                  strip line \<noteq> [] \<and> \<not> startswith (strip line) ''#''
                    \<longrightarrow> strip line = ''$$done$$'' \<or> valid_image_path (strip line))
            \<longrightarrow> first_meaningful ?final = Some ''$$done$$''"
  proof
    assume a: "''$$done$$'' \<in> set (map strip (readlines content))
            \<and> (\<forall>line \<in> set (readlines content).
                  strip line \<noteq> [] \<and> \<not> startswith (strip line) ''#''
                    \<longrightarrow> strip line = ''$$done$$'' \<or> valid_image_path (strip line))"
    let ?M = "\<lambda>s. s \<noteq> [] \<and> \<not> startswith s ''#''"
    let ?xs = "map strip (readlines ?final)"
    from a obtain l0 where l0: "l0 \<in> set (readlines content)" "strip l0 = ''$$done$$''" by auto
    with marker have "l0 \<in> set (readlines ?final)" by blast
    with l0 have "''$$done$$'' \<in> set ?xs" by force
    moreover have "?M ''$$done$$''" by (simp add: startswith_def)
    ultimately have ex: "\<exists>x \<in> set ?xs. ?M x" by blast
    have only: "\<forall>x \<in> set ?xs. ?M x \<longrightarrow> x = ''$$done$$''"
    proof (intro ballI impI)
      fix x assume x: "x \<in> set ?xs" and m: "?M x"
      from x have "x \<in> set (map strip (filter (\<lambda>line. strip line \<notin> set ?tp) (readlines content)))"
        by (simp only: lines)
      then obtain l where l: "l \<in> set (readlines content)" "strip l \<notin> set ?tp" "x = strip l"
        by auto
      show "x = ''$$done$$''"
      proof (rule ccontr)
        assume "x \<noteq> ''$$done$$''"
        with a l m have v: "valid_image_path (strip l)" by blast
        from m l have "\<not> startswith l ''#''" using strip_keeps_hash by blast
        with m l have "strip l \<in> set (load_tracking content)"
          by (auto simp: load_tracking_def)
        with v l show False by simp
      qed
    qed
    from find_unique_kind [OF ex only] show "first_meaningful ?final = Some ''$$done$$''"
      by (simp add: first_meaningful_def)
  qed
  have ex: "\<exists>final. Some ?final = Some final
        \<and> readlines final
            = filter (\<lambda>line. strip line \<notin> set (filter valid_image_path (load_tracking content)))
                (readlines content)
        \<and> (\<forall>line \<in> set (readlines content).
              \<not> valid_image_path (strip line) \<longrightarrow> line \<in> set (readlines final))
        \<and> (\<forall>line \<in> set (readlines content).
              strip line = ''$$done$$'' \<longrightarrow> line \<in> set (readlines final))
        \<and> (''$$done$$'' \<in> set (map strip (readlines content))
            \<and> (\<forall>line \<in> set (readlines content).
                  strip line \<noteq> [] \<and> \<not> startswith (strip line) ''#''
                    \<longrightarrow> strip line = ''$$done$$'' \<or> valid_image_path (strip line))
            \<longrightarrow> first_meaningful final = Some ''$$done$$'')"
    by (intro exI [of _ ?final] conjI) (rule refl lines kept marker first)+
  show ?thesis
    unfolding res fst_conv snd_conv
    by (intro conjI) (rule ev1 ev2 marker_not_image ex)+
qed

theorem preprocess_drain_keeps_marker_witness:
  "''$$done$$'' \<in> set (map strip (readlines ''# batch\<newline>/in/a.png\<newline>/in/b.TIF\<newline>$$done$$\<newline>''))
   \<and> valid_image_path ''/in/a.png'' \<and> valid_image_path ''/in/b.TIF''
   \<and> process_images (\<lambda>p. Written) (Some ''# batch\<newline>/in/a.png\<newline>/in/b.TIF\<newline>$$done$$\<newline>'')
       = (Some ''# batch\<newline>$$done$$\<newline>'',
          [Preprocess ''/in/a.png'' True, Untrack ''/in/a.png'',
           Preprocess ''/in/b.TIF'' True, Untrack ''/in/b.TIF''])
   \<and> first_meaningful ''# batch\<newline>$$done$$\<newline>'' = Some ''$$done$$''"
proof -
  let ?c = "''# batch\<newline>/in/a.png\<newline>/in/b.TIF\<newline>$$done$$\<newline>''"
  have v: "valid_image_path ''/in/a.png''" "valid_image_path ''/in/b.TIF''" by code_simp+
  have s: "map strip (readlines ?c) = [''# batch'', ''/in/a.png'', ''/in/b.TIF'', ''$$done$$'']"
    by (simp add: strip_def isspace_def)
  have r: "process_images (\<lambda>p. Written) (Some ?c)
       = (Some ''# batch\<newline>$$done$$\<newline>'',
          [Preprocess ''/in/a.png'' True, Untrack ''/in/a.png'',
           Preprocess ''/in/b.TIF'' True, Untrack ''/in/b.TIF''])"
    by code_simp
  have m: "''$$done$$'' \<in> set (map strip (readlines ?c))" by (simp only: s) simp
  have "\<forall>x \<in> set (map strip (readlines ?c)).
          x \<noteq> [] \<and> \<not> startswith x ''#'' \<longrightarrow> x = ''$$done$$'' \<or> valid_image_path x"
    using v by (simp only: s) (simp add: startswith_def)
  then have w: "\<forall>line \<in> set (readlines ?c).
          strip line \<noteq> [] \<and> \<not> startswith (strip line) ''#''
            \<longrightarrow> strip line = ''$$done$$'' \<or> valid_image_path (strip line)"
    by simp
  from preprocess_drain_keeps_marker [of "\<lambda>p. Written" ?c] m w
  have "\<exists>final. fst (process_images (\<lambda>p. Written) (Some ?c)) = Some final
          \<and> first_meaningful final = Some ''$$done$$''"
    by blast
  then have "first_meaningful ''# batch\<newline>$$done$$\<newline>'' = Some ''$$done$$''"
    by (simp add: r)
  with m v r show ?thesis by blast
qed

text \<open>
  The claim C10 as stated, that the marker is the first meaningful line after the drain of
  any preprocess ledger, fails where a line that is not processed stands before the
  marker: for an input folder holding the file \<open>.png\<close> the orchestrator writes the path
  into the tracking file, the preprocess stage finds no extension in it and leaves the
  file as it is, and the first meaningful line is that path.
\<close>

theorem unprocessed_line_before_marker:
  "populate_tracking False (\<lambda>file. ''/in/'' @ file) [''.png''] None
     = Some ''/in/.png\<newline>$$done$$\<newline>''
   \<and> process_images (\<lambda>p. Written) (Some ''/in/.png\<newline>$$done$$\<newline>'')
     = (Some ''/in/.png\<newline>$$done$$\<newline>'', [])
   \<and> first_meaningful ''/in/.png\<newline>$$done$$\<newline>'' = Some ''/in/.png''"
  by code_simp

end
